theory Spec2Isabelle
  imports Main "HOL-Library.Word"
begin

section \<open>Shell/SMTFormula.cpp: conjunction and disjunction\<close>

text \<open>
  An \<open>SMTFormula\<close> wraps the string \<open>_val\<close>. The header \<open>SMTFormula.hpp\<close> is not among
  the sources, so the four members it declares and that the two functions call
  (\<open>isTrue\<close>, \<open>isFalse\<close>, \<open>getTrue\<close>, \<open>getFalse\<close>) are parameters of the model, collected
  in the record \<open>SMTFormula_hpp\<close>.
\<close>

datatype SMTFormula = SMTFormula (val: string)

record SMTFormula_hpp =
  isTrue :: "SMTFormula \<Rightarrow> bool"
  isFalse :: "SMTFormula \<Rightarrow> bool"
  getTrue :: SMTFormula
  getFalse :: SMTFormula

text \<open>
  \<^verbatim>\<open>if(f1.isTrue()) { return f2; }
  if(f2.isTrue()) { return f1; }
  if(f1.isFalse() || f2.isFalse()) { return getFalse(); }
  return SMTFormula("(and " + f1._val + " " + f2._val + ")");\<close>
\<close>

definition conjunction :: "SMTFormula_hpp \<Rightarrow> SMTFormula \<Rightarrow> SMTFormula \<Rightarrow> SMTFormula" where
  "conjunction H f1 f2 =
     (if isTrue H f1 then f2
      else if isTrue H f2 then f1
      else if isFalse H f1 \<or> isFalse H f2 then getFalse H
      else SMTFormula (''(and '' @ val f1 @ '' '' @ val f2 @ '')''))"

text \<open>
  \<^verbatim>\<open>if(f1.isFalse()) { return f2; }
  if(f2.isFalse()) { return f1; }
  if(f1.isTrue() || f2.isTrue()) { getTrue(); }
  return SMTFormula("(or " + f1._val + " " + f2._val + ")");\<close>
  The third statement evaluates \<open>getTrue()\<close> and discards the value: there is no
  \<open>return\<close>, so both branches of that \<open>if\<close> continue with the last line.
\<close>

definition disjunction :: "SMTFormula_hpp \<Rightarrow> SMTFormula \<Rightarrow> SMTFormula \<Rightarrow> SMTFormula" where
  "disjunction H f1 f2 =
     (if isFalse H f1 then f2
      else if isFalse H f2 then f1
      else (let discarded = (if isTrue H f1 \<or> isTrue H f2 then Some (getTrue H) else None)
            in SMTFormula (''(or '' @ val f1 @ '' '' @ val f2 @ '')'')))"

text \<open>The usual reading of the header: the constants are the SMT-LIB words.\<close>

definition smt_words :: SMTFormula_hpp where
  "smt_words =
     \<lparr> isTrue = (\<lambda>f. val f = ''true''), isFalse = (\<lambda>f. val f = ''false''),
       getTrue = SMTFormula ''true'', getFalse = SMTFormula ''false'' \<rparr>"

section \<open>Lib/Set.hpp\<close>

text \<open>
  The class keeps its elements in \<open>std::unordered_set<Val, Hash> standard_set\<close>. The
  model is a list without repetitions, in the container's iteration order;
  \<open>begin()\<close> is the first position, and is the end position when the container is
  empty. \<open>unsigned\<close> is a 32-bit word.
\<close>

record 'v Set =
  standard_set :: "'v list"

definition begin_pos :: "'v list \<Rightarrow> 'v option" where
  "begin_pos xs = (case xs of [] \<Rightarrow> None | x # _ \<Rightarrow> Some x)"

text \<open>\<^verbatim>\<open>Set() { this->standard_set = std::unordered_set<Val, Hash>{}; }\<close>\<close>

definition Set_new :: "'v Set" where
  "Set_new = \<lparr> standard_set = [] \<rparr>"

text \<open>\<^verbatim>\<open>bool contains (Val val) const { return this->standard_set.contains(val); }\<close>\<close>

definition contains :: "'v Set \<Rightarrow> 'v \<Rightarrow> bool" where
  "contains s v = (v \<in> set (standard_set s))"

text \<open>\<^verbatim>\<open>inline unsigned size() const { return this->standard_set.size(); }\<close>\<close>

definition size_Set :: "'v Set \<Rightarrow> 32 word" where
  "size_Set s = word_of_nat (length (standard_set s))"

text \<open>
  \<^verbatim>\<open>Val& rawFindOrInsert(Create create, unsigned hashCode, IsCorrectVal isCorrectVal, bool& inserted)
  { return this->standard_set.begin(); }\<close>
  The result is the returned position, the reference parameter \<open>inserted\<close> as the call
  leaves it, and the set as the call leaves it.
\<close>

definition rawFindOrInsert ::
  "(unit \<Rightarrow> 'v) \<Rightarrow> 32 word \<Rightarrow> ('v \<Rightarrow> bool) \<Rightarrow> bool \<Rightarrow> 'v Set \<Rightarrow> 'v option \<times> bool \<times> 'v Set" where
  "rawFindOrInsert create hashCode isCorrectVal inserted s =
     (begin_pos (standard_set s), inserted, s)"

text \<open>
  \<^verbatim>\<open>Val insert(Val val, unsigned code)
  { bool dummy; return rawFindOrInsert([&]() { return std::move(val); },code,
      [&](auto v) { return Hash::equals(v, val); }, dummy); }\<close>
  \<open>dummy\<close> is uninitialised at the call; its value is a parameter of the model.
\<close>

definition insert_code ::
  "('v \<Rightarrow> 'v \<Rightarrow> bool) \<Rightarrow> bool \<Rightarrow> 'v \<Rightarrow> 32 word \<Rightarrow> 'v Set \<Rightarrow> 'v option \<times> 'v Set" where
  "insert_code equals dummy v code s =
     (case rawFindOrInsert (\<lambda>_. v) code (\<lambda>w. equals w v) dummy s of
        (r, _, s') \<Rightarrow> (r, s'))"

text \<open>\<^verbatim>\<open>inline Val insert(const Val val) { return insert(val,Hash::hash(val)); }\<close>\<close>

definition insert_Set ::
  "('v \<Rightarrow> 32 word) \<Rightarrow> ('v \<Rightarrow> 'v \<Rightarrow> bool) \<Rightarrow> bool \<Rightarrow> 'v \<Rightarrow> 'v Set \<Rightarrow> 'v option \<times> 'v Set" where
  "insert_Set hash equals dummy v s = insert_code equals dummy v (hash v) s"

subsection \<open>Set::Iterator\<close>

text \<open>
  The iterator copies the container: \<^verbatim>\<open>Iterator(const Set& set) : standard_set(set.standard_set)\<close>.
  \<^verbatim>\<open>bool hasNext() { return false; }\<close>
  \<^verbatim>\<open>Val next() { return this->standard_set.begin(); }\<close>
  \<open>next\<close> leaves the iterator as it is.
\<close>

record 'v Iterator =
  it_standard_set :: "'v list"

definition Iterator_new :: "'v Set \<Rightarrow> 'v Iterator" where
  "Iterator_new s = \<lparr> it_standard_set = standard_set s \<rparr>"

definition hasNext :: "'v Iterator \<Rightarrow> bool" where
  "hasNext it = False"

definition next_val :: "'v Iterator \<Rightarrow> 'v option \<times> 'v Iterator" where
  "next_val it = (begin_pos (it_standard_set it), it)"

text \<open>
  \<^verbatim>\<open>IterTraits<Iterator> iter() const { return iterTraits(Iterator(*this)); }\<close>
  \<open>IterTraits\<close> (Lib/Metaiterators.hpp, not among the sources) wraps an iterator and
  forwards \<open>hasNext\<close> and \<open>next\<close> to it; the wrapper is the identity here.
\<close>

definition iter :: "'v Set \<Rightarrow> 'v Iterator" where
  "iter s = Iterator_new s"

text \<open>
  The client loop \<^verbatim>\<open>while (it.hasNext()) { use(it.next()); }\<close>, collecting what it is
  handed. Reading the end position has no value, and a loop that does not stop has
  none either.
\<close>

partial_function (option) drain :: "'v Iterator \<Rightarrow> 'v list \<Rightarrow> 'v list option" where
  "drain it acc =
     (if hasNext it then
        (case next_val it of
           (None, _) \<Rightarrow> None
         | (Some v, it') \<Rightarrow> drain it' (acc @ [v]))
      else Some acc)"

text \<open>
  \<^verbatim>\<open>out << "{ ";
  auto iter = self.iter();
  if (iter.hasNext()) {
    out << iter.next();
    while (iter.hasNext())
      out << ", " << iter.next();
  }
  return out << " }";\<close>
  \<open>sh\<close> is the element type's own output operator.
\<close>

partial_function (option) print_rest ::
  "('v \<Rightarrow> string) \<Rightarrow> 'v Iterator \<Rightarrow> string \<Rightarrow> string option" where
  "print_rest sh it out =
     (if hasNext it then
        (case next_val it of
           (None, _) \<Rightarrow> None
         | (Some v, it') \<Rightarrow> print_rest sh it' (out @ '', '' @ sh v))
      else Some out)"

definition output_Set :: "('v \<Rightarrow> string) \<Rightarrow> string \<Rightarrow> 'v Set \<Rightarrow> string option" where
  "output_Set sh out s =
     (let out1 = out @ ''{ ''; it = iter s in
      map_option (\<lambda>o2. o2 @ '' }'')
        (if hasNext it then
           (case next_val it of
              (None, _) \<Rightarrow> None
            | (Some v, it') \<Rightarrow> print_rest sh it' (out1 @ sh v))
         else Some out1))"

section \<open>Index manager and the engine's attach and detach\<close>

text \<open>
  Modelled from the spec: the index manager (Indexing/IndexManager.hpp is not among the
  sources). Its key is an enum of index kinds, its value the pair (index instance,
  refcount). \<open>request(kind)\<close> returns the lazily constructed, shared index of that kind
  and increments its refcount; \<open>release(kind)\<close> decrements, and on zero the index is
  destroyed. \<open>calls\<close> records the calls the manager has received, in order.
\<close>

datatype IndexType =
  DEMODULATION_LHS_CODE_TREE | DEMODULATION_LHS_SUBST_TREE
  | SUPERPOSITION_SUBTERM | BACKWARD_SUBSUMPTION_LIT

datatype Index = Index IndexType

datatype imgr_call = Request IndexType | Release IndexType

record IndexManager =
  store :: "IndexType \<Rightarrow> (Index \<times> nat) option"
  calls :: "imgr_call list"

definition refcount :: "IndexManager \<Rightarrow> IndexType \<Rightarrow> nat" where
  "refcount m k = (case store m k of None \<Rightarrow> 0 | Some (_, n) \<Rightarrow> n)"

definition request :: "IndexType \<Rightarrow> IndexManager \<Rightarrow> Index \<times> IndexManager" where
  "request k m =
     (case store m k of
        None \<Rightarrow>
          (Index k, m\<lparr> store := (store m)(k \<mapsto> (Index k, 1)), calls := calls m @ [Request k] \<rparr>)
      | Some (i, n) \<Rightarrow>
          (i, m\<lparr> store := (store m)(k \<mapsto> (i, n + 1)), calls := calls m @ [Request k] \<rparr>))"

definition release :: "IndexType \<Rightarrow> IndexManager \<Rightarrow> IndexManager" where
  "release k m =
     (case store m k of
        None \<Rightarrow> m\<lparr> calls := calls m @ [Release k] \<rparr>
      | Some (i, n) \<Rightarrow>
          (if n \<le> 1
           then m\<lparr> store := (store m)(k := None), calls := calls m @ [Release k] \<rparr>
           else m\<lparr> store := (store m)(k \<mapsto> (i, n - 1)), calls := calls m @ [Release k] \<rparr>))"

text \<open>
  The options the engine reads (Shell/Options.hpp is not among the sources; the values
  are those of the strategy record).
\<close>

datatype Demodulation = DEMODULATION_OFF | PREORDERED | ALL

datatype DemodulationRedundancyCheck = REDUNDANCY_OFF | ENCOMPASS | REDUNDANCY_ON

record Options =
  forwardDemodulation :: Demodulation
  demodulationRedundancyCheck :: DemodulationRedundancyCheck

text \<open>
  \<open>SaturationAlgorithm\<close> owns the index manager (\<^verbatim>\<open>IndexManager _imgr;\<close>,
  \<^verbatim>\<open>IndexManager* getIndexManager() { return &_imgr; }\<close>). The engine refers to it by
  address, so the saturation algorithms live in a store.
\<close>

record SaturationAlgorithm =
  imgr :: IndexManager
  options :: Options

type_synonym salg_store = "nat \<Rightarrow> SaturationAlgorithm option"

text \<open>
  The fields of \<open>ForwardDemodulation\<close>. \<open>DemodulationHelper(getOptions(), &_salg->getOrdering())\<close>
  is kept as the pair of its constructor's arguments.
\<close>

record ForwardDemodulation =
  salg :: "nat option"
  index :: "Index option"
  preorderedOnly :: bool
  encompassing :: bool
  helper :: "(Options \<times> nat) option"

datatype fault = NullDereference

text \<open>
  \<^verbatim>\<open>ForwardSimplificationEngine::attach(salg);
  _index=static_cast<DemodulationLHSIndex*>(
	  _salg->getIndexManager()->request(DEMODULATION_LHS_CODE_TREE) );
  _preorderedOnly = getOptions().forwardDemodulation()==Options::Demodulation::PREORDERED;
  _encompassing = getOptions().demodulationRedundancyCheck()==Options::DemodulationRedundancyCheck::ENCOMPASS;
  _helper = DemodulationHelper(getOptions(), &_salg->getOrdering());\<close>
  The base class's \<open>attach\<close> stores the pointer in \<open>_salg\<close> and its \<open>detach\<close> clears it
  (Inferences/InferenceEngine.hpp is not among the sources).
\<close>

definition attach ::
  "nat \<Rightarrow> salg_store \<times> ForwardDemodulation \<Rightarrow> fault + salg_store \<times> ForwardDemodulation" where
  "attach p st =
     (case st of (h, e) \<Rightarrow>
        (let e1 = e\<lparr> salg := Some p \<rparr> in
         case h p of
           None \<Rightarrow> Inl NullDereference
         | Some sa \<Rightarrow>
             (case request DEMODULATION_LHS_CODE_TREE (imgr sa) of
                (i, m) \<Rightarrow>
                  Inr (h(p \<mapsto> sa\<lparr> imgr := m \<rparr>),
                       e1\<lparr> index := Some i,
                           preorderedOnly := (forwardDemodulation (options sa) = PREORDERED),
                           encompassing := (demodulationRedundancyCheck (options sa) = ENCOMPASS),
                           helper := Some (options sa, p) \<rparr>))))"

text \<open>
  \<^verbatim>\<open>_index=0;
  _salg->getIndexManager()->release(DEMODULATION_LHS_CODE_TREE);
  ForwardSimplificationEngine::detach();\<close>
\<close>

definition detach ::
  "salg_store \<times> ForwardDemodulation \<Rightarrow> fault + salg_store \<times> ForwardDemodulation" where
  "detach st =
     (case st of (h, e) \<Rightarrow>
        (let e1 = e\<lparr> index := None \<rparr> in
         case salg e1 of
           None \<Rightarrow> Inl NullDereference
         | Some p \<Rightarrow>
             (case h p of
                None \<Rightarrow> Inl NullDereference
              | Some sa \<Rightarrow>
                  Inr (h(p \<mapsto> sa\<lparr> imgr := release DEMODULATION_LHS_CODE_TREE (imgr sa) \<rparr>),
                       e1\<lparr> salg := None \<rparr>))))"

text \<open>A saturation algorithm with an empty index manager, and an engine not yet attached.\<close>

definition salg0 :: SaturationAlgorithm where
  "salg0 = \<lparr> imgr = \<lparr> store = Map.empty, calls = [] \<rparr>,
             options = \<lparr> forwardDemodulation = PREORDERED, demodulationRedundancyCheck = ENCOMPASS \<rparr> \<rparr>"

definition engine0 :: ForwardDemodulation where
  "engine0 = \<lparr> salg = None, index = None, preorderedOnly = False, encompassing = False, helper = None \<rparr>"

section \<open>Inferences/ForwardDemodulation.cpp: perform\<close>

subsection \<open>Terms, literals, clauses\<close>

text \<open>
  The kernel headers (Kernel/Term.hpp, Kernel/Clause.hpp, Kernel/Inference.hpp) are not
  among the sources. A \<open>TermList\<close> is a variable or a function symbol applied to
  arguments; terms are shared, so the pointer comparisons of the source are equality
  of terms. A literal is a predicate symbol, a polarity and arguments; equality is
  predicate 0. A clause is its literals and its inference record.
\<close>

datatype TermList = Var nat | App nat "TermList list"

fun isVar :: "TermList \<Rightarrow> bool" where
  "isVar (Var _) = True"
| "isVar (App _ _) = False"

datatype Literal = Literal (functor_of: nat) (polarity: bool) (args: "TermList list")

definition isEquality :: "Literal \<Rightarrow> bool" where
  "isEquality l = (functor_of l = 0)"

text \<open>
  \<open>lit->nthArgument(n)\<close>. The source reads arguments 0 and 1 of literals it takes for
  equalities; an argument a literal does not have is \<open>None\<close> here.
\<close>

definition nthArgument :: "Literal \<Rightarrow> nat \<Rightarrow> TermList option" where
  "nthArgument l n = (if n < length (args l) then Some (args l ! n) else None)"

datatype Color = COLOR_TRANSPARENT | COLOR_LEFT | COLOR_RIGHT

datatype InferenceRule = INPUT | FORWARD_DEMODULATION

datatype Inference = NonspecificInference0 InferenceRule
  | SimplifyingInference2 InferenceRule Clause Clause
and Clause = Clause (literals: "Literal list") (inference: Inference)

datatype Result = GREATER | LESS | EQUAL | INCOMPARABLE

text \<open>
  A substitution is given by its action on variables; \<open>subst_apply\<close> is its application
  to a term (\<open>subs->applyToBoundResult(t)\<close>, \<open>subst.apply(t, 0)\<close>).
\<close>

fun subst_apply :: "(nat \<Rightarrow> TermList) \<Rightarrow> TermList \<Rightarrow> TermList" where
  "subst_apply \<sigma> (Var v) = \<sigma> v"
| "subst_apply \<sigma> (App f ts) = App f (map (subst_apply \<sigma>) ts)"

text \<open>
  Modelled from the spec: Kernel/EqHelper.hpp is not among the sources. "Build L' by
  replacing t with the instantiated right-hand side in L" (\<open>EqHelper::replace\<close>, every
  occurrence); "an equality of the form x = x" (\<open>EqHelper::isEqTautology\<close>, a positive
  equality with equal sides); "u is the queried (left) side; let v be the other"
  (\<open>EqHelper::getOtherEqualitySide\<close>).
\<close>

fun replace_term :: "TermList \<Rightarrow> TermList \<Rightarrow> TermList \<Rightarrow> TermList" where
  "replace_term t r (Var v) = (if Var v = t then r else Var v)"
| "replace_term t r (App f ts) =
     (if App f ts = t then r else App f (map (replace_term t r) ts))"

definition replace :: "Literal \<Rightarrow> TermList \<Rightarrow> TermList \<Rightarrow> Literal" where
  "replace lit t r = Literal (functor_of lit) (polarity lit) (map (replace_term t r) (args lit))"

definition isEqTautology :: "Literal \<Rightarrow> bool" where
  "isEqTautology l =
     (isEquality l \<and> polarity l \<and> (case args l of [a, b] \<Rightarrow> a = b | _ \<Rightarrow> False))"

definition getOtherEqualitySide :: "Literal \<Rightarrow> TermList \<Rightarrow> TermList option" where
  "getOtherEqualitySide eq lhs =
     (if nthArgument eq 0 = Some lhs then nthArgument eq 1 else nthArgument eq 0)"

text \<open>
  Modelled from the spec: Kernel/ColorHelper.hpp is not among the sources. "The colours
  of c and the equality must be compatible (at most one non-transparent, unless
  identical)."
\<close>

definition compatible :: "Color \<Rightarrow> Color \<Rightarrow> bool" where
  "compatible c1 c2 = (c1 = COLOR_TRANSPARENT \<or> c2 = COLOR_TRANSPARENT \<or> c1 = c2)"

text \<open>
  One hit of the index: \<open>qr.data->clause\<close>, \<open>qr.data->literal\<close>, \<open>qr.data->term\<close>,
  \<open>qr.unifier\<close> (by its action on the variables of the equality) and what
  \<open>subs->isIdentityOnQueryWhenResultBound()\<close> answers.
\<close>

record QueryRes =
  data_clause :: Clause
  data_literal :: Literal
  data_term :: TermList
  unifier :: "nat \<Rightarrow> TermList"
  isIdentityOnQueryWhenResultBound :: bool

text \<open>
  What \<open>perform\<close> calls and the sources do not contain is a parameter of the model:
  whether the build has \<open>VDEBUG\<close> (Debug/Assertion.hpp: \<open>ASS\<close> and \<open>ASS_EQ\<close> throw
  when it is set and are empty otherwise), \<open>Literal::isAnswerLiteral\<close>, the number of
  type arguments of a function and of a predicate symbol, the sort of a term
  (\<open>trm.sort()\<close>), \<open>Clause::color\<close>, the index (\<open>_index->getGeneralizations(trm, true)\<close>,
  the hits in the order the iterator yields them), \<open>SortHelper::getEqualityArgumentSort\<close>,
  \<open>RobSubstitution::match\<close> on the two sorts (the bindings when it succeeds),
  the ordering (\<open>getEqualityArgumentOrder\<close>, \<open>isGreater\<close>), the helper
  (\<open>redundancyCheckNeededForPremise\<close>, \<open>isPremiseRedundant\<close>), and what slot \<open>i\<close> of
  a clause holds between \<^verbatim>\<open>new(cLen) Clause(cLen, ...)\<close> and the first write to it
  (\<open>unwritten_slot\<close>; Kernel/Clause.hpp is not among the sources, and \<open>perform\<close> never
  reads such a slot).
\<close>

record collaborators =
  VDEBUG :: bool
  isAnswerLiteral :: "Literal \<Rightarrow> bool"
  numTypeArguments :: "nat \<Rightarrow> nat"
  numTypeArgumentsPred :: "nat \<Rightarrow> nat"
  getResultSort :: "TermList \<Rightarrow> TermList"
  color :: "Clause \<Rightarrow> Color"
  getGeneralizations :: "TermList \<Rightarrow> QueryRes list"
  getEqualityArgumentSort :: "Literal \<Rightarrow> TermList"
  subst_match :: "TermList \<Rightarrow> TermList \<Rightarrow> (nat \<Rightarrow> TermList) option"
  getEqualityArgumentOrder :: "Literal \<Rightarrow> Result"
  isGreater :: "TermList \<Rightarrow> TermList \<Rightarrow> bool"
  redundancyCheckNeededForPremise :: "Clause \<Rightarrow> Literal \<Rightarrow> TermList \<Rightarrow> bool"
  isPremiseRedundant ::
    "Clause \<Rightarrow> Literal \<Rightarrow> TermList \<Rightarrow> TermList \<Rightarrow> TermList \<Rightarrow> (nat \<Rightarrow> TermList) \<Rightarrow> bool"
  unwritten_slot :: "nat \<Rightarrow> Literal"

text \<open>
  The state \<open>perform\<close> reads and writes: the static \<open>DHSet<TermList> attempted\<close>, the
  static \<open>RobSubstitution subst\<close>, the two counters of \<open>env.statistics\<close> (\<open>unsigned\<close>),
  and the reference parameters \<open>replacement\<close> and \<open>premises\<close> (the clauses the
  iterator yields). \<open>queries\<close> records the arguments of the calls of
  \<open>getGeneralizations\<close> within the current call, in order.
\<close>

record fd_state =
  attempted :: "TermList set"
  queries :: "TermList list"
  subst :: "nat \<Rightarrow> TermList"
  forwardDemodulations :: "32 word"
  forwardDemodulationsToEqTaut :: "32 word"
  replacement :: "Clause option"
  premises_out :: "Clause list"

text \<open>
  An iteration of a loop ends the function (\<open>return true\<close>), goes on (\<open>continue\<close>, or
  the end of the body), or stops at a violated assertion or at a read of something
  that is not there.
\<close>

datatype perform_fault = AssertionViolation | IllFormed

datatype 'a step = Abort perform_fault | Return fd_state | Next 'a

subsection \<open>NonVariableNonTypeIterator\<close>

text \<open>
  Modelled from the spec: Kernel/TermIterators.hpp is not among the sources. The
  iterator yields the "non-variable non-type subterms" of a literal, each subterm
  before its own subterms; \<open>right()\<close> skips the subterms of the term yielded last
  ("once attempted and failed, its proper subterms are not visited"). It is a stack:
  \<open>next()\<close> pops a term and pushes its non-variable arguments that are not type
  arguments, counting them in \<open>_added\<close>; \<open>right()\<close> pops \<open>_added\<close> terms. The
  model is \<open>ForwardDemodulationImpl<false>\<close>, the instance that uses this iterator.
\<close>

record NonVariableNonTypeIterator =
  stack :: "TermList list"
  added :: nat

definition termArgs :: "nat \<Rightarrow> TermList list \<Rightarrow> TermList list" where
  "termArgs nta ts = filter (\<lambda>a. \<not> isVar a) (drop nta ts)"

definition pushAll :: "TermList list \<Rightarrow> TermList list \<Rightarrow> TermList list" where
  "pushAll ts stk = rev ts @ stk"

definition NonVariableNonTypeIterator_new :: "collaborators \<Rightarrow> Literal \<Rightarrow> NonVariableNonTypeIterator" where
  "NonVariableNonTypeIterator_new C lit =
     (let ts = termArgs (numTypeArgumentsPred C (functor_of lit)) (args lit)
      in \<lparr> stack = pushAll ts [], added = length ts \<rparr>)"

definition it_hasNext :: "NonVariableNonTypeIterator \<Rightarrow> bool" where
  "it_hasNext it = (stack it \<noteq> [])"

definition it_next :: "collaborators \<Rightarrow> NonVariableNonTypeIterator \<Rightarrow> (TermList \<times> NonVariableNonTypeIterator) option" where
  "it_next C it =
     (case stack it of
        [] \<Rightarrow> None
      | Var v # stk \<Rightarrow> Some (Var v, \<lparr> stack = stk, added = 0 \<rparr>)
      | App f ts # stk \<Rightarrow>
          (let cs = termArgs (numTypeArguments C f) ts
           in Some (App f ts, \<lparr> stack = pushAll cs stk, added = length cs \<rparr>)))"

definition it_right :: "NonVariableNonTypeIterator \<Rightarrow> NonVariableNonTypeIterator" where
  "it_right it = \<lparr> stack = drop (added it) (stack it), added = 0 \<rparr>"

subsection \<open>The body of the loop over the hits\<close>

text \<open>
  \<^verbatim>\<open>Ordering::Result argOrder = ordering.getEqualityArgumentOrder(qr.data->literal);
  bool preordered = argOrder==Ordering::LESS || argOrder==Ordering::GREATER;\<close>
\<close>

definition preordered :: "collaborators \<Rightarrow> QueryRes \<Rightarrow> bool" where
  "preordered C qr =
     (let argOrder = getEqualityArgumentOrder C (data_literal qr)
      in argOrder = LESS \<or> argOrder = GREATER)"

text \<open>
  \<^verbatim>\<open>Applicator<true> varSubst(subs.ptr(), subst);
  Applicator<false> notVarSubst(subs.ptr(), subst);
  auto appl = lhs.isVar() ? (SubstApplicator*)&varSubst : (SubstApplicator*)&notVarSubst;\<close>
  \<open>Applicator<true>\<close> maps a variable \<open>v\<close> to \<open>vSubst.apply(subst->applyToBoundResult(v), 0)\<close>,
  \<open>Applicator<false>\<close> to \<open>subst->applyToBoundResult(v)\<close>.
\<close>

definition appl :: "fd_state \<Rightarrow> QueryRes \<Rightarrow> nat \<Rightarrow> TermList" where
  "appl s qr =
     (if isVar (data_term qr) then (\<lambda>v. subst_apply (subst s) (unifier qr v)) else unifier qr)"

text \<open>
  \<^verbatim>\<open>TermList rhsS = subs->applyToBoundResult(rhs);
  if (lhs.isVar()) {
    rhsS = subst.apply(rhsS, 0);
  }\<close>
\<close>

definition hit_rhsS :: "fd_state \<Rightarrow> QueryRes \<Rightarrow> TermList \<Rightarrow> TermList" where
  "hit_rhsS s qr rhs =
     (let rhsS = subst_apply (unifier qr) rhs
      in if isVar (data_term qr) then subst_apply (subst s) rhsS else rhsS)"

text \<open>
  \<^verbatim>\<open>Clause* res = new(cLen) Clause(cLen,
    SimplifyingInference2(InferenceRule::FORWARD_DEMODULATION, cl, qr.data->clause));
  (*res)[0]=resLit;
  unsigned next=1;
  for(unsigned i=0;i<cLen;i++) {
    Literal* curr=(*cl)[i];
    if(curr!=lit) {
      (*res)[next++] = curr;
    }
  }
  ASS_EQ(next,cLen);\<close>
  The new clause has \<open>cLen\<close> slots, none of them written; \<open>fill\<close> is the loop and
  \<open>read_slots\<close> gives the literals of the clause as the loop leaves it. \<open>lit\<close> is a
  literal of \<open>cl\<close>, so at most \<open>cLen - 1\<close> literals differ from it and every write is
  inside the clause. When \<open>lit\<close> stands more than once in \<open>cl\<close> the loop ends with
  \<open>next < cLen\<close>: with \<open>VDEBUG\<close> the assertion fails; without it \<open>ASS_EQ\<close> is empty
  and the clause is returned with its last slots never written.
\<close>

fun fill :: "Literal list \<Rightarrow> Literal \<Rightarrow> Literal option list \<Rightarrow> nat \<Rightarrow> Literal option list \<times> nat" where
  "fill [] lit res nxt = (res, nxt)"
| "fill (cur # rest) lit res nxt =
     (if cur \<noteq> lit then fill rest lit (res[nxt := Some cur]) (nxt + 1)
      else fill rest lit res nxt)"

fun read_slots :: "(nat \<Rightarrow> Literal) \<Rightarrow> nat \<Rightarrow> Literal option list \<Rightarrow> Literal list" where
  "read_slots junk i [] = []"
| "read_slots junk i (None # res) = junk i # read_slots junk (i + 1) res"
| "read_slots junk i (Some l # res) = l # read_slots junk (i + 1) res"

definition build_result ::
  "collaborators \<Rightarrow> Clause \<Rightarrow> Literal \<Rightarrow> Literal \<Rightarrow> Clause \<Rightarrow> perform_fault + Clause" where
  "build_result C cl lit resLit eqClause =
     (let cLen = length (literals cl);
          res0 = (replicate cLen None)[0 := Some resLit]
      in case fill (literals cl) lit res0 1 of
           (res, nxt) \<Rightarrow>
             (if VDEBUG C \<and> nxt \<noteq> cLen then Inl AssertionViolation
              else Inr (Clause (read_slots (unwritten_slot C) 0 res)
                         (SimplifyingInference2 FORWARD_DEMODULATION cl eqClause))))"

text \<open>
  \<^verbatim>\<open>static RobSubstitution subst;
  if(lhs.isVar()){
    subst.reset();
    TermList querySort = trm.sort();
    TermList eqSort = SortHelper::getEqualityArgumentSort(qr.data->literal);
    if(!subst.match(eqSort, 0, querySort, 1)){
      continue;
    }
  }\<close>
  The result says whether the hit goes on, and gives the state with \<open>subst\<close> as the
  block leaves it. After a failed match the substitution is taken to be empty; the
  source does not read it again before the next \<open>reset()\<close>.
\<close>

definition sort_match :: "collaborators \<Rightarrow> TermList \<Rightarrow> QueryRes \<Rightarrow> fd_state \<Rightarrow> bool \<times> fd_state" where
  "sort_match C trm qr s =
     (if isVar (data_term qr)
      then (let querySort = getResultSort C trm;
                eqSort = getEqualityArgumentSort C (data_literal qr)
            in case subst_match C eqSort querySort of
                 None \<Rightarrow> (False, s\<lparr> subst := Var \<rparr>)
               | Some \<theta> \<Rightarrow> (True, s\<lparr> subst := \<theta> \<rparr>))
      else (True, s))"

text \<open>
  \<^verbatim>\<open>#if VDEBUG
  if(preordered) {
    if(argOrder==Ordering::LESS) {
      ASS_EQ(rhs, *qr.data->literal->nthArgument(0));
    }
    else {
      ASS_EQ(rhs, *qr.data->literal->nthArgument(1));
    }
  }
  #endif
  auto subs = qr.unifier;
  ASS(subs->isIdentityOnQueryWhenResultBound());\<close>
\<close>

definition debug_assertions :: "collaborators \<Rightarrow> QueryRes \<Rightarrow> TermList \<Rightarrow> bool" where
  "debug_assertions C qr rhs =
     ((if preordered C qr
       then (if getEqualityArgumentOrder C (data_literal qr) = LESS
             then Some rhs = nthArgument (data_literal qr) 0
             else Some rhs = nthArgument (data_literal qr) 1)
       else True)
      \<and> isIdentityOnQueryWhenResultBound qr)"

text \<open>
  \<^verbatim>\<open>if (redundancyCheck && _encompassing) {
    Ordering::Result litOrder = ordering.getEqualityArgumentOrder(lit);
    if ((trm==*lit->nthArgument(0) && litOrder == Ordering::LESS) ||
        (trm==*lit->nthArgument(1) && litOrder == Ordering::GREATER)) {
      redundancyCheck = false;
    }
  }\<close>
  The value of \<open>redundancyCheck\<close> after the block.
\<close>

definition encompassing_check ::
  "collaborators \<Rightarrow> ForwardDemodulation \<Rightarrow> Literal \<Rightarrow> TermList \<Rightarrow> bool \<Rightarrow> bool" where
  "encompassing_check C e lit trm redundancyCheck =
     (if redundancyCheck \<and> encompassing e
      then (let litOrder = getEqualityArgumentOrder C lit
            in if (Some trm = nthArgument lit 0 \<and> litOrder = LESS)
                  \<or> (Some trm = nthArgument lit 1 \<and> litOrder = GREATER)
               then False else redundancyCheck)
      else redundancyCheck)"

text \<open>
  \<^verbatim>\<open>Literal* resLit = EqHelper::replace(lit,trm,rhsS);
  if(EqHelper::isEqTautology(resLit)) {
    env.statistics->forwardDemodulationsToEqTaut++;
    premises = pvi( getSingletonIterator(qr.data->clause));
    return true;
  }
  Clause* res = ... (see build_result)
  env.statistics->forwardDemodulations++;
  premises = pvi( getSingletonIterator(qr.data->clause));
  replacement = res;
  return true;\<close>
\<close>

definition emit ::
  "collaborators \<Rightarrow> Clause \<Rightarrow> Literal \<Rightarrow> TermList \<Rightarrow> QueryRes \<Rightarrow> TermList \<Rightarrow> fd_state
     \<Rightarrow> (bool \<times> fd_state) step" where
  "emit C cl lit trm qr rhsS s =
     (let resLit = replace lit trm rhsS in
      if isEqTautology resLit
      then Return (s\<lparr> forwardDemodulationsToEqTaut := forwardDemodulationsToEqTaut s + 1,
                      premises_out := [data_clause qr] \<rparr>)
      else
        (case build_result C cl lit resLit (data_clause qr) of
           Inl f \<Rightarrow> Abort f
         | Inr res \<Rightarrow>
             Return (s\<lparr> forwardDemodulations := forwardDemodulations s + 1,
                        premises_out := [data_clause qr],
                        replacement := Some res \<rparr>)))"

text \<open>
  The body of \<^verbatim>\<open>while(git.hasNext())\<close> for the hit \<open>qr\<close>, in the order of the source:
  \<^verbatim>\<open>ASS_EQ(qr.data->clause->length(),1);
  if(!ColorHelper::compatible(cl->color(), qr.data->clause->color())) { continue; }
  auto lhs = qr.data->term;
  ... (sort_match)
  TermList rhs=EqHelper::getOtherEqualitySide(qr.data->literal,lhs);
  ... (preordered, debug_assertions, appl)
  if (!preordered && (_preorderedOnly || !ordering.isGreater(AppliedTerm(trm),AppliedTerm(rhs,appl,true)))) {
    continue;
  }
  ... (encompassing_check, hit_rhsS)
  if (redundancyCheck && !_helper.isPremiseRedundant(cl, lit, trm, rhsS, lhs, subs.ptr(), true)) {
    continue;
  }
  ... (emit)\<close>
  \<open>AppliedTerm(rhs,appl,true)\<close> stands for \<open>rhs\<close> under the applicator. A \<open>Next\<close>
  carries the value of \<open>redundancyCheck\<close>, which the body may have changed.
\<close>

definition try_hit ::
  "collaborators \<Rightarrow> ForwardDemodulation \<Rightarrow> Clause \<Rightarrow> Literal \<Rightarrow> TermList \<Rightarrow> bool
     \<Rightarrow> QueryRes \<Rightarrow> fd_state \<Rightarrow> (bool \<times> fd_state) step" where
  "try_hit C e cl lit trm redundancyCheck qr s =
     (if VDEBUG C \<and> length (literals (data_clause qr)) \<noteq> 1 then Abort AssertionViolation
      else if \<not> compatible (color C cl) (color C (data_clause qr)) then Next (redundancyCheck, s)
      else
        (case sort_match C trm qr s of
           (False, s1) \<Rightarrow> Next (redundancyCheck, s1)
         | (True, s1) \<Rightarrow>
            (case getOtherEqualitySide (data_literal qr) (data_term qr) of
               None \<Rightarrow> Abort IllFormed
             | Some rhs \<Rightarrow>
                 if VDEBUG C \<and> \<not> debug_assertions C qr rhs then Abort AssertionViolation
                 else if \<not> preordered C qr
                         \<and> (preorderedOnly e \<or> \<not> isGreater C trm (subst_apply (appl s1 qr) rhs))
                 then Next (redundancyCheck, s1)
                 else
                   (let redundancyCheck' = encompassing_check C e lit trm redundancyCheck;
                        rhsS = hit_rhsS s1 qr rhs
                    in if redundancyCheck'
                          \<and> \<not> isPremiseRedundant C cl lit trm rhsS (data_term qr) (unifier qr)
                       then Next (redundancyCheck', s1)
                       else emit C cl lit trm qr rhsS s1))))"

subsection \<open>The three loops\<close>

text \<open>\<^verbatim>\<open>while(git.hasNext()) { auto qr=git.next(); ... }\<close>\<close>

fun hit_loop ::
  "collaborators \<Rightarrow> ForwardDemodulation \<Rightarrow> Clause \<Rightarrow> Literal \<Rightarrow> TermList \<Rightarrow> bool
     \<Rightarrow> QueryRes list \<Rightarrow> fd_state \<Rightarrow> fd_state step" where
  "hit_loop C e cl lit trm redundancyCheck [] s = Next s"
| "hit_loop C e cl lit trm redundancyCheck (qr # git) s =
     (case try_hit C e cl lit trm redundancyCheck qr s of
        Abort f \<Rightarrow> Abort f
      | Return s' \<Rightarrow> Return s'
      | Next (redundancyCheck', s') \<Rightarrow> hit_loop C e cl lit trm redundancyCheck' git s')"

text \<open>
  The loop over the subterms ends because each \<open>next()\<close> replaces a term on the stack
  by terms inside it.
\<close>

definition stack_size :: "NonVariableNonTypeIterator \<Rightarrow> nat" where
  "stack_size it = size_list size (stack it)"

lemma size_list_filter_le: "size_list f (filter P xs) \<le> size_list f xs"
  by (induction xs) auto

lemma size_list_drop_le: "size_list f (drop n xs) \<le> size_list f xs"
  by (induction xs arbitrary: n) (auto simp: drop_Cons split: nat.splits intro: le_SucI trans_le_add2)

lemma size_list_termArgs_le: "size_list size (termArgs n ts) \<le> size_list size ts"
  unfolding termArgs_def
  by (rule order_trans [OF size_list_filter_le size_list_drop_le])

lemma size_list_rev: "size_list f (rev xs) = size_list f xs"
  by (induction xs) auto

lemma it_next_decreases:
  assumes "it_next C it = Some (trm, it1)"
  shows "stack_size it1 < stack_size it"
proof (cases "stack it")
  case Nil
  with assms show ?thesis by (simp add: it_next_def)
next
  case (Cons t stk)
  show ?thesis
  proof (cases t)
    case (Var v)
    with Cons assms show ?thesis
      by (auto simp: it_next_def stack_size_def)
  next
    case (App f ts)
    have "size_list size (termArgs (numTypeArguments C f) ts) \<le> size_list size ts"
      by (rule size_list_termArgs_le)
    with App Cons assms show ?thesis
      by (auto simp: it_next_def stack_size_def pushAll_def Let_def size_list_rev)
  qed
qed

lemma it_right_le: "stack_size (it_right it) \<le> stack_size it"
  by (simp add: it_right_def stack_size_def size_list_drop_le)

text \<open>
  \<^verbatim>\<open>while(it.hasNext()) {
    TypedTermList trm = it.next();
    if(!attempted.insert(trm)) {
      it.right();
      continue;
    }
    bool redundancyCheck = _helper.redundancyCheckNeededForPremise(cl, lit, trm);
    auto git = _index->getGeneralizations(trm.term(), /* retrieveSubstitutions */ true);
    ... (hit_loop)
  }\<close>
  \<open>DHSet::insert\<close> (Lib/DHSet.hpp, not among the sources) adds the value and answers
  whether it was new.
\<close>

function subterm_loop ::
  "collaborators \<Rightarrow> ForwardDemodulation \<Rightarrow> Clause \<Rightarrow> Literal
     \<Rightarrow> NonVariableNonTypeIterator \<Rightarrow> fd_state \<Rightarrow> fd_state step" where
  "subterm_loop C e cl lit it s =
     (if \<not> it_hasNext it then Next s
      else
        (case it_next C it of
           None \<Rightarrow> Abort IllFormed
         | Some (trm, it1) \<Rightarrow>
             if trm \<in> attempted s then subterm_loop C e cl lit (it_right it1) s
             else
               (let s1 = s\<lparr> attempted := insert trm (attempted s) \<rparr>;
                    redundancyCheck = redundancyCheckNeededForPremise C cl lit trm;
                    s2 = s1\<lparr> queries := queries s1 @ [trm] \<rparr>
                in case hit_loop C e cl lit trm redundancyCheck (getGeneralizations C trm) s2 of
                     Abort f \<Rightarrow> Abort f
                   | Return s' \<Rightarrow> Return s'
                   | Next s' \<Rightarrow> subterm_loop C e cl lit it1 s')))"
  by pat_completeness auto
termination
proof (relation "measure (\<lambda>(C, e, cl, lit, it, s). stack_size it)")
  show "wf (measure (\<lambda>(C, e, cl, lit, it, s). stack_size it))"
    by simp
next
  fix C e cl lit it s x2 x y
  assume "it_next C it = Some x2" and "(x, y) = x2"
  then have "stack_size y < stack_size it"
    using it_next_decreases [of C it x y] by simp
  then show "((C, e, cl, lit, it_right y, s), C, e, cl, lit, it, s)
               \<in> measure (\<lambda>(C, e, cl, lit, it, s). stack_size it)"
    using it_right_le [of y] by simp
next
  fix C e cl lit it s x2 x y xa xb xc x3
  assume "it_next C it = Some x2" and "(x, y) = x2"
  then have "stack_size y < stack_size it"
    using it_next_decreases [of C it x y] by simp
  then show "((C, e, cl, lit, y, x3), C, e, cl, lit, it, s)
               \<in> measure (\<lambda>(C, e, cl, lit, it, s). stack_size it)"
    by simp
qed

declare subterm_loop.simps [simp del]

text \<open>
  \<^verbatim>\<open>for(unsigned li=0;li<cLen;li++) {
    Literal* lit=(*cl)[li];
    if (lit->isAnswerLiteral()) {
      continue;
    }
    NonVariableNonTypeIterator it(lit);
    ... (subterm_loop)
  }\<close>
\<close>

fun lit_loop ::
  "collaborators \<Rightarrow> ForwardDemodulation \<Rightarrow> Clause \<Rightarrow> Literal list \<Rightarrow> fd_state \<Rightarrow> fd_state step" where
  "lit_loop C e cl [] s = Next s"
| "lit_loop C e cl (lit # lits) s =
     (if isAnswerLiteral C lit then lit_loop C e cl lits s
      else
        (case subterm_loop C e cl lit (NonVariableNonTypeIterator_new C lit) s of
           Abort f \<Rightarrow> Abort f
         | Return s' \<Rightarrow> Return s'
         | Next s' \<Rightarrow> lit_loop C e cl lits s'))"

text \<open>
  \<^verbatim>\<open>static DHSet<TermList> attempted;
  attempted.reset();
  ... (lit_loop)
  return false;\<close>
  The result is the returned \<open>bool\<close> and the state the call leaves.
\<close>

definition perform ::
  "collaborators \<Rightarrow> ForwardDemodulation \<Rightarrow> Clause \<Rightarrow> fd_state \<Rightarrow> perform_fault + bool \<times> fd_state" where
  "perform C e cl s =
     (case lit_loop C e cl (literals cl) (s\<lparr> attempted := {}, queries := [] \<rparr>) of
        Abort f \<Rightarrow> Inl f
      | Return s' \<Rightarrow> Inr (True, s')
      | Next s' \<Rightarrow> Inr (False, s'))"

subsection \<open>What the claims speak of\<close>

text \<open>
  The non-variable non-type subterms of a term, of a literal, and of the literals of a
  clause that are not answer literals.
\<close>

function nvnt_subterms :: "collaborators \<Rightarrow> TermList \<Rightarrow> TermList list" where
  "nvnt_subterms C (Var v) = []"
| "nvnt_subterms C (App f ts) =
     App f ts # concat (map (nvnt_subterms C) (drop (numTypeArguments C f) ts))"
  by pat_completeness auto
termination
proof (relation "measure (\<lambda>(C, t). size t)")
  show "wf (measure (\<lambda>(C, t). size t))"
    by simp
next
  fix C :: collaborators and f :: nat and ts :: "TermList list" and x :: TermList
  assume "x \<in> set (drop (numTypeArguments C f) ts)"
  then have "x \<in> set ts"
    by (rule in_set_dropD)
  then have "size x \<le> size_list size ts"
    by (simp add: size_list_estimation')
  then show "((C, x), C, App f ts) \<in> measure (\<lambda>(C, t). size t)"
    by simp
qed

definition nvnt_subterms_lit :: "collaborators \<Rightarrow> Literal \<Rightarrow> TermList list" where
  "nvnt_subterms_lit C lit =
     concat (map (nvnt_subterms C) (drop (numTypeArgumentsPred C (functor_of lit)) (args lit)))"

definition clause_subterms :: "collaborators \<Rightarrow> Clause \<Rightarrow> TermList list" where
  "clause_subterms C cl =
     concat (map (nvnt_subterms_lit C) (filter (\<lambda>l. \<not> isAnswerLiteral C l) (literals cl)))"

definition children :: "collaborators \<Rightarrow> TermList \<Rightarrow> TermList list" where
  "children C t = (case t of Var v \<Rightarrow> [] | App f ts \<Rightarrow> termArgs (numTypeArguments C f) ts)"

text \<open>
  \<open>outputs_kept\<close>: the counters and the two reference parameters are as they were.
  \<open>log_kept\<close>: so are the memo set and the record of queries.
\<close>

definition outputs_kept :: "fd_state \<Rightarrow> fd_state \<Rightarrow> bool" where
  "outputs_kept s s' =
     (forwardDemodulations s' = forwardDemodulations s
      \<and> forwardDemodulationsToEqTaut s' = forwardDemodulationsToEqTaut s
      \<and> replacement s' = replacement s
      \<and> premises_out s' = premises_out s)"

definition log_kept :: "fd_state \<Rightarrow> fd_state \<Rightarrow> bool" where
  "log_kept s s' = (attempted s' = attempted s \<and> queries s' = queries s)"

text \<open>
  \<open>emitted\<close>: the state \<open>s'\<close> is what the hit \<open>qr\<close> for the subterm \<open>trm\<close> of the literal
  \<open>lit\<close> leaves when it rewrites, from a state with the outputs of \<open>s\<close>: \<open>rhs\<close> is the
  other side of the equality, the colours are compatible, the ordering check passed,
  \<open>premises\<close> is the equality's clause, and either the rewritten literal is an equality
  tautology and \<open>replacement\<close> is untouched, or \<open>replacement\<close> is the new clause: the
  rewritten literal, the literals of \<open>cl\<close> other than \<open>lit\<close> in their order, and then
  the slots that were never written (\<open>unwritten_tail\<close>), of which there are none when
  \<open>lit\<close> stands once in \<open>cl\<close>, as it does whenever a \<open>VDEBUG\<close> build rewrites.
\<close>

definition unwritten_tail :: "collaborators \<Rightarrow> Clause \<Rightarrow> Literal \<Rightarrow> Literal list" where
  "unwritten_tail C cl lit =
     map (unwritten_slot C)
       [Suc (length (filter (\<lambda>c. c \<noteq> lit) (literals cl))) ..< length (literals cl)]"

definition emitted ::
  "collaborators \<Rightarrow> ForwardDemodulation \<Rightarrow> Clause \<Rightarrow> Literal \<Rightarrow> TermList \<Rightarrow> QueryRes
     \<Rightarrow> TermList \<Rightarrow> fd_state \<Rightarrow> fd_state \<Rightarrow> bool" where
  "emitted C e cl lit trm qr rhs s s' =
     (getOtherEqualitySide (data_literal qr) (data_term qr) = Some rhs
      \<and> compatible (color C cl) (color C (data_clause qr))
      \<and> (preordered C qr \<or> (\<not> preorderedOnly e \<and> isGreater C trm (hit_rhsS s' qr rhs)))
      \<and> (VDEBUG C \<and> length (literals (data_clause qr)) \<noteq> 1) = False
      \<and> premises_out s' = [data_clause qr]
      \<and> (if isEqTautology (replace lit trm (hit_rhsS s' qr rhs))
         then replacement s' = replacement s
              \<and> forwardDemodulationsToEqTaut s' = forwardDemodulationsToEqTaut s + 1
              \<and> forwardDemodulations s' = forwardDemodulations s
         else replacement s' =
                Some (Clause (replace lit trm (hit_rhsS s' qr rhs)
                               # filter (\<lambda>c. c \<noteq> lit) (literals cl) @ unwritten_tail C cl lit)
                       (SimplifyingInference2 FORWARD_DEMODULATION cl (data_clause qr)))
              \<and> (VDEBUG C \<and> count_list (literals cl) lit \<noteq> 1) = False
              \<and> forwardDemodulations s' = forwardDemodulations s + 1
              \<and> forwardDemodulationsToEqTaut s' = forwardDemodulationsToEqTaut s))"

text \<open>
  \<open>log_extended U\<close>: the queries made between two states are terms of \<open>U\<close>, each new to
  the memo set and made once, and the memo set grew by exactly them.
\<close>

definition log_extended :: "TermList set \<Rightarrow> fd_state \<Rightarrow> fd_state \<Rightarrow> bool" where
  "log_extended U s s' =
     (\<exists>new. queries s' = queries s @ new \<and> distinct new \<and> set new \<subseteq> U
        \<and> set new \<inter> attempted s = {} \<and> attempted s' = attempted s \<union> set new)"

definition rewrote ::
  "collaborators \<Rightarrow> ForwardDemodulation \<Rightarrow> Clause \<Rightarrow> fd_state \<Rightarrow> fd_state \<Rightarrow> bool" where
  "rewrote C e cl s s' =
     (\<exists>lit trm qr rhs.
        lit \<in> set (literals cl) \<and> \<not> isAnswerLiteral C lit
        \<and> trm \<in> set (nvnt_subterms_lit C lit)
        \<and> queries s' \<noteq> [] \<and> last (queries s') = trm
        \<and> qr \<in> set (getGeneralizations C trm)
        \<and> emitted C e cl lit trm qr rhs s s')"

definition loop_post ::
  "collaborators \<Rightarrow> ForwardDemodulation \<Rightarrow> Clause \<Rightarrow> TermList set \<Rightarrow> fd_state
     \<Rightarrow> fd_state step \<Rightarrow> bool" where
  "loop_post C e cl U s r =
     (case r of
        Abort f \<Rightarrow> True
      | Next s' \<Rightarrow> outputs_kept s s' \<and> log_extended U s s'
      | Return s' \<Rightarrow> log_extended U s s' \<and> rewrote C e cl s s')"

text \<open>
  A hit is skipped when the body of the loop ends in \<open>continue\<close> for it, whatever the
  state; \<open>reaches_ordering_check\<close> says that a hit got as far as the ordering check.
\<close>

definition hit_skipped ::
  "collaborators \<Rightarrow> ForwardDemodulation \<Rightarrow> Clause \<Rightarrow> Literal \<Rightarrow> TermList \<Rightarrow> QueryRes \<Rightarrow> bool" where
  "hit_skipped C e cl lit trm qr =
     (\<forall>s. \<exists>s'. try_hit C e cl lit trm (redundancyCheckNeededForPremise C cl lit trm) qr s
                  = Next (redundancyCheckNeededForPremise C cl lit trm, s'))"

definition reaches_ordering_check ::
  "collaborators \<Rightarrow> Clause \<Rightarrow> TermList \<Rightarrow> QueryRes \<Rightarrow> fd_state \<Rightarrow> fd_state \<Rightarrow> TermList \<Rightarrow> bool" where
  "reaches_ordering_check C cl trm qr s s1 rhs =
     ((VDEBUG C \<and> length (literals (data_clause qr)) \<noteq> 1) = False
      \<and> compatible (color C cl) (color C (data_clause qr))
      \<and> sort_match C trm qr s = (True, s1)
      \<and> getOtherEqualitySide (data_literal qr) (data_term qr) = Some rhs
      \<and> (VDEBUG C \<and> \<not> debug_assertions C qr rhs) = False)"

definition all_hits_skipped :: "collaborators \<Rightarrow> ForwardDemodulation \<Rightarrow> Clause \<Rightarrow> bool" where
  "all_hits_skipped C e cl =
     (\<forall>lit \<in> set (literals cl). \<forall>trm \<in> set (nvnt_subterms_lit C lit).
        \<forall>qr \<in> set (getGeneralizations C trm).
          \<not> isAnswerLiteral C lit \<longrightarrow> hit_skipped C e cl lit trm qr)"

text \<open>
  The order in which \<open>perform\<close> queries the index: the loops over the literals and
  over their subterms with the memo set, the hits left out. \<open>visit_terms\<close> follows
  \<open>subterm_loop\<close> (the same \<open>next()\<close>, the same test of the memo set, the same
  \<open>right()\<close>) and gives the terms queried from an iterator and a memo set; \<open>visit_lits\<close>
  follows \<open>lit_loop\<close> and pairs each term with the literal it is queried for. As long as
  no hit rewrites, these are the queries \<open>perform\<close> makes.
\<close>

function visit_terms :: "collaborators \<Rightarrow> NonVariableNonTypeIterator \<Rightarrow> TermList set \<Rightarrow> TermList list" where
  "visit_terms C it A =
     (if \<not> it_hasNext it then []
      else
        (case it_next C it of
           None \<Rightarrow> []
         | Some (trm, it1) \<Rightarrow>
             if trm \<in> A then visit_terms C (it_right it1) A
             else trm # visit_terms C it1 (insert trm A)))"
  by pat_completeness auto
termination
proof (relation "measure (\<lambda>(C, it, A). stack_size it)")
  show "wf (measure (\<lambda>(C, it, A). stack_size it))"
    by simp
next
  fix C it A x2 x y
  assume "it_next C it = Some x2" and "(x, y) = x2"
  then have "stack_size y < stack_size it"
    using it_next_decreases [of C it x y] by simp
  then show "((C, it_right y, A), C, it, A) \<in> measure (\<lambda>(C, it, A). stack_size it)"
    using it_right_le [of y] by simp
next
  fix C it A x2 x y
  assume "it_next C it = Some x2" and "(x, y) = x2"
  then have "stack_size y < stack_size it"
    using it_next_decreases [of C it x y] by simp
  then show "((C, y, insert x A), C, it, A) \<in> measure (\<lambda>(C, it, A). stack_size it)"
    by simp
qed

declare visit_terms.simps [simp del]

fun visit_lits :: "collaborators \<Rightarrow> Literal list \<Rightarrow> TermList set \<Rightarrow> (Literal \<times> TermList) list" where
  "visit_lits C [] A = []"
| "visit_lits C (lit # lits) A =
     (if isAnswerLiteral C lit then visit_lits C lits A
      else
        (let ts = visit_terms C (NonVariableNonTypeIterator_new C lit) A
         in map (Pair lit) ts @ visit_lits C lits (A \<union> set ts)))"

definition visit_order :: "collaborators \<Rightarrow> Clause \<Rightarrow> (Literal \<times> TermList) list" where
  "visit_order C cl = visit_lits C (literals cl) {}"

text \<open>
  A hit rewrites when it passes every check of the body of the loop, whatever the
  state it is tried in: it gets as far as the ordering check, the equality is
  pre-ordered or \<open>_preorderedOnly\<close> is off and \<open>isGreater\<close> answers true, and the
  redundancy check is off or \<open>isPremiseRedundant\<close> answers true. \<open>rhsS\<close> is the
  instantiated other side of the equality. \<open>first_rewrite\<close>: the hit \<open>qr\<close> for the
  subterm \<open>trm\<close> of the literal \<open>lit\<close> rewrites, and every hit tried before it, in the
  order of the three loops, is skipped.
\<close>

definition hit_rewrites ::
  "collaborators \<Rightarrow> ForwardDemodulation \<Rightarrow> Clause \<Rightarrow> Literal \<Rightarrow> TermList \<Rightarrow> QueryRes \<Rightarrow> TermList \<Rightarrow> bool" where
  "hit_rewrites C e cl lit trm qr rhsS =
     (\<forall>s. \<exists>s1 rhs.
        reaches_ordering_check C cl trm qr s s1 rhs
      \<and> rhsS = hit_rhsS s1 qr rhs
      \<and> (preordered C qr \<or> (\<not> preorderedOnly e \<and> isGreater C trm rhsS))
      \<and> (encompassing_check C e lit trm (redundancyCheckNeededForPremise C cl lit trm)
           \<and> \<not> isPremiseRedundant C cl lit trm rhsS (data_term qr) (unifier qr)) = False)"

definition first_rewrite ::
  "collaborators \<Rightarrow> ForwardDemodulation \<Rightarrow> Clause \<Rightarrow> Literal \<Rightarrow> TermList \<Rightarrow> QueryRes \<Rightarrow> TermList \<Rightarrow> bool" where
  "first_rewrite C e cl lit trm qr rhsS =
     (\<exists>vpre vpost hpre hpost.
        visit_order C cl = vpre @ (lit, trm) # vpost
      \<and> (\<forall>(l, t) \<in> set vpre. \<forall>q \<in> set (getGeneralizations C t). hit_skipped C e cl l t q)
      \<and> getGeneralizations C trm = hpre @ qr # hpost
      \<and> (\<forall>q \<in> set hpre. hit_skipped C e cl lit trm q)
      \<and> hit_rewrites C e cl lit trm qr rhsS)"

text \<open>
  What the claims take for granted about the ordering and the index, neither of which
  is among the sources. The ordering \<open>gt\<close> is the one the ordering object answers by:
  the cached comparison of an equality's sides and \<open>isGreater\<close> agree with it, it is
  stable under substitution, and no variable is greater than a term. The index returns
  generalisations: the unifier maps the indexed side to the query term, the indexed
  side is a side of the equality, and of a pre-ordered equality it is the greater one.
\<close>

definition ordering_contract :: "collaborators \<Rightarrow> (TermList \<Rightarrow> TermList \<Rightarrow> bool) \<Rightarrow> bool" where
  "ordering_contract C gt =
     ((\<forall>l a0 a1. args l = [a0, a1] \<longrightarrow>
          (getEqualityArgumentOrder C l = GREATER \<longrightarrow> gt a0 a1)
        \<and> (getEqualityArgumentOrder C l = LESS \<longrightarrow> gt a1 a0))
      \<and> (\<forall>s t. isGreater C s t \<longrightarrow> gt s t)
      \<and> (\<forall>s t \<rho>. gt s t \<longrightarrow> gt (subst_apply \<rho> s) (subst_apply \<rho> t))
      \<and> (\<forall>x t. \<not> gt (Var x) t))"

definition index_contract :: "collaborators \<Rightarrow> bool" where
  "index_contract C =
     (\<forall>trm qr. qr \<in> set (getGeneralizations C trm) \<longrightarrow>
        (\<exists>a0 a1. args (data_literal qr) = [a0, a1]
           \<and> (data_term qr = a0 \<or> data_term qr = a1)
           \<and> (getEqualityArgumentOrder C (data_literal qr) = GREATER \<longrightarrow> data_term qr = a0)
           \<and> (getEqualityArgumentOrder C (data_literal qr) = LESS \<longrightarrow> data_term qr = a1))
        \<and> subst_apply (unifier qr) (data_term qr) = trm)"

subsection \<open>Sample configurations\<close>

text \<open>
  The ordering of the samples: a term is greater than its proper subterms. Symbols:
  \<open>f\<close> is function 2, \<open>a\<close> is function 7; the active equality is \<open>f(x) = x\<close>.
\<close>

fun occurs :: "TermList \<Rightarrow> TermList \<Rightarrow> bool" where
  "occurs t (Var v) = (t = Var v)"
| "occurs t (App f ts) = (t = App f ts \<or> list_ex (occurs t) ts)"

fun psub :: "TermList \<Rightarrow> TermList \<Rightarrow> bool" where
  "psub t (Var v) = False"
| "psub t (App f ts) = list_ex (occurs t) ts"

definition subterm_gt :: "TermList \<Rightarrow> TermList \<Rightarrow> bool" where
  "subterm_gt s t = psub t s"

definition eq_lit :: Literal where "eq_lit = Literal 0 True [App 2 [Var 0], Var 0]"

definition eq_cl :: Clause where "eq_cl = Clause [eq_lit] (NonspecificInference0 INPUT)"

definition goal_cl :: Clause where
  "goal_cl = Clause [Literal 5 True [App 2 [App 2 [App 7 []]]], Literal 2 False [App 7 []]] (NonspecificInference0 INPUT)"

definition sample_index :: "TermList \<Rightarrow> QueryRes list" where
  "sample_index t =
     (case t of
        Var v \<Rightarrow> []
      | App f ts \<Rightarrow>
          (case ts of
             [u] \<Rightarrow> if f = 2 then
                 [\<lparr> data_clause = eq_cl, data_literal = eq_lit, data_term = App 2 [Var 0],
                    unifier = (\<lambda>_. u), isIdentityOnQueryWhenResultBound = True \<rparr>]
               else []
           | _ \<Rightarrow> []))"

definition demo_collab :: collaborators where
  "demo_collab = \<lparr> VDEBUG = True,
          isAnswerLiteral = (\<lambda>l. functor_of l = 9),
          numTypeArguments = (\<lambda>_. 0),
          numTypeArgumentsPred = (\<lambda>_. 0),
          getResultSort = (\<lambda>_. App 0 []),
          color = (\<lambda>_. COLOR_TRANSPARENT),
          getGeneralizations = sample_index,
          getEqualityArgumentSort = (\<lambda>_. App 0 []),
          subst_match = (\<lambda>_ _. Some Var),
          getEqualityArgumentOrder =
            (\<lambda>l. case args l of
                    [a, b] \<Rightarrow> if subterm_gt a b then GREATER else if subterm_gt b a then LESS
                              else if a = b then EQUAL else INCOMPARABLE
                  | _ \<Rightarrow> INCOMPARABLE),
          isGreater = subterm_gt,
          redundancyCheckNeededForPremise = (\<lambda>_ _ _. False),
          isPremiseRedundant = (\<lambda>_ _ _ _ _ _. True),
          unwritten_slot = (\<lambda>_. Literal 8 False []) \<rparr>"

definition demo_engine :: ForwardDemodulation where
  "demo_engine = \<lparr> salg = Some 0, index = Some (Index DEMODULATION_LHS_CODE_TREE), preorderedOnly = False, encompassing = False, helper = None \<rparr>"

definition demo_state :: fd_state where
  "demo_state = \<lparr> attempted = {}, queries = [], subst = Var, forwardDemodulations = 0, forwardDemodulationsToEqTaut = 0, replacement = None, premises_out = [] \<rparr>"

definition observe :: "perform_fault + bool \<times> fd_state \<Rightarrow> (bool \<times> TermList list \<times> 32 word \<times> 32 word \<times> Clause option \<times> Clause list) option" where
  "observe r = (case r of Inl _ \<Rightarrow> None | Inr (b, s) \<Rightarrow> Some (b, queries s, forwardDemodulations s, forwardDemodulationsToEqTaut s, replacement s, premises_out s))"

definition answer_lit :: Literal where
  "answer_lit = Literal 9 True [App 5 [App 6 []]]"

definition memo_cl :: Clause where
  "memo_cl = Clause [Literal 5 True [App 3 [App 7 [], App 7 []]], answer_lit,
                     Literal 2 True [App 3 [App 4 [], App 7 []], App 7 []]]
               (NonspecificInference0 INPUT)"

definition left_cl :: Clause where
  "left_cl = Clause [Literal 0 True [App 2 [Var 0], App 7 []]] (NonspecificInference0 INPUT)"

definition var_cl :: Clause where
  "var_cl = Clause [Literal 0 True [Var 0, App 7 []]] (NonspecificInference0 INPUT)"

definition unordered_cl :: Clause where
  "unordered_cl = Clause [Literal 0 True [App 2 [Var 0], App 3 [Var 0, Var 0]]] (NonspecificInference0 INPUT)"

definition hit_of :: "Clause \<Rightarrow> TermList \<Rightarrow> TermList \<Rightarrow> QueryRes" where
  "hit_of c lhs u =
     \<lparr> data_clause = c, data_literal = hd (literals c), data_term = lhs,
       unifier = (\<lambda>_. u), isIdentityOnQueryWhenResultBound = True \<rparr>"

definition failing_index :: "TermList \<Rightarrow> QueryRes list" where
  "failing_index t =
     (case t of
        Var v \<Rightarrow> []
      | App f ts \<Rightarrow>
          (case ts of
             [u] \<Rightarrow> if f = 2 then
                 [hit_of left_cl (App 2 [Var 0]) u, hit_of var_cl (Var 0) t,
                  hit_of unordered_cl (App 2 [Var 0]) u, hit_of eq_cl (App 2 [Var 0]) u]
               else []
           | _ \<Rightarrow> []))"

definition C_fail :: collaborators where
  "C_fail = demo_collab\<lparr> color := (\<lambda>c. if c = left_cl then COLOR_LEFT else if c = goal_cl then COLOR_RIGHT
                              else COLOR_TRANSPARENT),
                getGeneralizations := failing_index,
                subst_match := (\<lambda>_ _. None),
                redundancyCheckNeededForPremise := (\<lambda>_ _ _. True),
                isPremiseRedundant := (\<lambda>_ _ _ _ _ _. False) \<rparr>"

text \<open>
  A build without \<open>VDEBUG\<close>: the clause at hand is coloured right, the index answers a
  query for \<open>f(u)\<close> with a left-coloured equality and then with \<open>f(x) = x\<close>. In
  \<open>taut2_cl\<close> the second literal is rewritten to \<open>a = a\<close>; in \<open>shape_cl\<close> the second
  literal is rewritten and stands once; in \<open>dup_cl\<close> the rewritten literal stands twice.
\<close>

definition release_index :: "TermList \<Rightarrow> QueryRes list" where
  "release_index t =
     (case t of
        Var v \<Rightarrow> []
      | App f ts \<Rightarrow>
          (case ts of
             [u] \<Rightarrow> if f = 2 then
                 [hit_of left_cl (App 2 [Var 0]) u, hit_of eq_cl (App 2 [Var 0]) u]
               else []
           | _ \<Rightarrow> []))"

definition release_collab :: collaborators where
  "release_collab =
     demo_collab\<lparr> VDEBUG := False,
                  color := (\<lambda>c. if c = left_cl then COLOR_LEFT else if c = eq_cl then COLOR_TRANSPARENT
                                else COLOR_RIGHT),
                  getGeneralizations := release_index \<rparr>"

definition taut2_cl :: Clause where
  "taut2_cl = Clause [Literal 5 True [App 7 []], Literal 0 True [App 2 [App 7 []], App 7 []]]
                (NonspecificInference0 INPUT)"

definition shape_cl :: Clause where
  "shape_cl = Clause [Literal 6 True [App 7 []], Literal 5 True [App 2 [App 7 []]],
                      Literal 2 False [App 7 []]]
                (NonspecificInference0 INPUT)"

definition dup_cl :: Clause where
  "dup_cl = Clause [Literal 5 True [App 2 [App 7 []]], Literal 5 True [App 2 [App 7 []]]]
              (NonspecificInference0 INPUT)"

section \<open>The saturation driver\<close>
















section \<open>Properties of SMTFormula\<close>

lemma disjunction_unfold:
  "\<not> isFalse H f1 \<Longrightarrow> \<not> isFalse H f2 \<Longrightarrow>
     disjunction H f1 f2 = SMTFormula (''(or '' @ val f1 @ '' '' @ val f2 @ '')'')"
  by (simp add: disjunction_def Let_def)

text \<open>
  C9. The claim: whenever one argument is true, \<open>disjunction\<close> returns \<open>getTrue()\<close>.
  The code does not: when neither argument is false it returns the \<open>(or ...)\<close>
  formula of the two arguments, also when one of them (or each) is true, because the
  call of \<open>getTrue()\<close> is not returned. Whatever the header takes for the true
  formula, as long as that formula is true and not false, the disjunction of the true
  formula with itself is a longer string, hence not the true formula.
\<close>

theorem disjunction_true_not_returned:
  assumes "isTrue H (getTrue H)" and "\<not> isFalse H (getTrue H)"
  shows "disjunction H (getTrue H) (getTrue H)
           = SMTFormula (''(or '' @ val (getTrue H) @ '' '' @ val (getTrue H) @ '')'')
         \<and> disjunction H (getTrue H) (getTrue H) \<noteq> getTrue H"
proof -
  let ?t = "getTrue H"
  have eq: "disjunction H ?t ?t = SMTFormula (''(or '' @ val ?t @ '' '' @ val ?t @ '')'')"
    using assms(2) by (simp add: disjunction_unfold)
  have "length (val (disjunction H ?t ?t)) \<noteq> length (val ?t)"
    by (simp add: eq)
  then have "disjunction H ?t ?t \<noteq> ?t"
    by auto
  with eq show ?thesis by simp
qed

theorem disjunction_true_not_returned_witness:
  "isTrue smt_words (getTrue smt_words) \<and> \<not> isFalse smt_words (getTrue smt_words)
   \<and> disjunction smt_words (getTrue smt_words) (getTrue smt_words) = SMTFormula ''(or true true)''
   \<and> disjunction smt_words (SMTFormula ''true'') (SMTFormula ''p'') = SMTFormula ''(or true p)''
   \<and> disjunction smt_words (getTrue smt_words) (getTrue smt_words) \<noteq> getTrue smt_words"
proof -
  have a: "isTrue smt_words (getTrue smt_words)"
    by (simp add: smt_words_def)
  have b: "\<not> isFalse smt_words (getTrue smt_words)"
    by (simp add: smt_words_def)
  have c: "disjunction smt_words (SMTFormula ''true'') (SMTFormula ''p'') = SMTFormula ''(or true p)''"
    by (simp add: disjunction_def smt_words_def)
  from disjunction_true_not_returned [OF a b] a b c show ?thesis
    by (simp add: smt_words_def)
qed

section \<open>Properties of Set\<close>

text \<open>
  C6. \<open>rawFindOrInsert\<close> returns the begin position and does nothing else: its result
  does not depend on \<open>create\<close>, \<open>hashCode\<close> or \<open>isCorrectVal\<close>, \<open>inserted\<close> keeps the
  value it had, and the set is the one it was. So \<open>insert\<close> adds nothing: after
  \<open>insert(v)\<close> on a new set, \<open>contains(v)\<close> is false and \<open>size()\<close> is 0; on any set,
  \<open>insert\<close> leaves the container as it was.
\<close>

theorem insert_adds_nothing:
  "rawFindOrInsert create hashCode isCorrectVal inserted s
     = rawFindOrInsert create' hashCode' isCorrectVal' inserted s
   \<and> rawFindOrInsert create hashCode isCorrectVal inserted s
     = (begin_pos (standard_set s), inserted, s)
   \<and> snd (insert_Set hash equals dummy v s) = s
   \<and> fst (insert_Set hash equals dummy v Set_new) = None
   \<and> contains (snd (insert_Set hash equals dummy v Set_new)) v = False
   \<and> size_Set (snd (insert_Set hash equals dummy v Set_new)) = 0"
  by (simp add: rawFindOrInsert_def insert_Set_def insert_code_def Set_new_def
      contains_def size_Set_def begin_pos_def)

text \<open>
  C10. \<open>hasNext\<close> of an iterator over any set is false, whatever the set holds. So the
  client loop over \<open>iter()\<close> is handed no element, and the output operator prints the
  two braces and nothing between them, for every set; a set of two elements (of size
  2) is printed like the empty one.
\<close>

theorem iterator_enumerates_nothing:
  "hasNext (Iterator_new s) = False
   \<and> hasNext (iter s) = False
   \<and> drain (iter s) [] = Some []
   \<and> output_Set sh out s = Some (out @ ''{  }'')
   \<and> size_Set \<lparr> standard_set = [a, b] \<rparr> = 2
   \<and> output_Set sh out \<lparr> standard_set = [a, b] \<rparr> = output_Set sh out Set_new"
  by (simp add: hasNext_def drain.simps output_Set_def Let_def size_Set_def)

section \<open>Properties of attach and detach\<close>

lemma request_calls: "calls (snd (request k m)) = calls m @ [Request k]"
  by (simp add: request_def split: option.splits prod.splits)

lemma request_refcount: "refcount (snd (request k m)) k' = (if k' = k then refcount m k + 1 else refcount m k')"
  by (simp add: request_def refcount_def split: option.splits prod.splits)

lemma release_calls: "calls (release k m) = calls m @ [Release k]"
  by (simp add: release_def split: option.splits prod.splits)

lemma release_refcount: "refcount (release k m) k' = (if k' = k then refcount m k - 1 else refcount m k')"
  by (auto simp add: release_def refcount_def split: option.splits prod.splits)

text \<open>
  C5. Attached to a saturation algorithm that exists, the engine makes exactly one call
  of the index manager, \<open>request(DEMODULATION_LHS_CODE_TREE)\<close>, and stores the index it
  is given; detached afterwards, it makes exactly one more call,
  \<open>release(DEMODULATION_LHS_CODE_TREE)\<close>, and clears the stored index (and the pointer to
  the algorithm). Over the attached lifetime the manager has received the request and
  then the release of that kind, and the reference count of the kind is what it was.
\<close>

theorem index_request_release_paired:
  assumes "h p = Some sa"
  shows "\<exists>h1 e1 sa1 h2 e2 sa2.
           attach p (h, e) = Inr (h1, e1) \<and> h1 p = Some sa1
         \<and> calls (imgr sa1) = calls (imgr sa) @ [Request DEMODULATION_LHS_CODE_TREE]
         \<and> index e1 = Some (fst (request DEMODULATION_LHS_CODE_TREE (imgr sa)))
         \<and> salg e1 = Some p
         \<and> refcount (imgr sa1) DEMODULATION_LHS_CODE_TREE = refcount (imgr sa) DEMODULATION_LHS_CODE_TREE + 1
         \<and> detach (h1, e1) = Inr (h2, e2) \<and> h2 p = Some sa2
         \<and> calls (imgr sa2) = calls (imgr sa) @ [Request DEMODULATION_LHS_CODE_TREE, Release DEMODULATION_LHS_CODE_TREE]
         \<and> index e2 = None \<and> salg e2 = None
         \<and> refcount (imgr sa2) DEMODULATION_LHS_CODE_TREE = refcount (imgr sa) DEMODULATION_LHS_CODE_TREE"
  using assms
  by (simp add: attach_def detach_def Let_def split_beta request_calls release_calls request_refcount release_refcount)

theorem index_request_release_paired_witness:
  "(Map.empty(0 := Some salg0)) (0::nat) = Some salg0
   \<and> (\<exists>h1 e1 sa1 h2 e2 sa2.
         attach 0 (Map.empty(0 := Some salg0), engine0) = Inr (h1, e1) \<and> h1 0 = Some sa1
       \<and> calls (imgr sa1) = [Request DEMODULATION_LHS_CODE_TREE]
       \<and> index e1 = Some (Index DEMODULATION_LHS_CODE_TREE)
       \<and> salg e1 = Some 0
       \<and> refcount (imgr sa1) DEMODULATION_LHS_CODE_TREE = 1
       \<and> detach (h1, e1) = Inr (h2, e2) \<and> h2 0 = Some sa2
       \<and> calls (imgr sa2) = [Request DEMODULATION_LHS_CODE_TREE, Release DEMODULATION_LHS_CODE_TREE]
       \<and> index e2 = None \<and> salg e2 = None
       \<and> refcount (imgr sa2) DEMODULATION_LHS_CODE_TREE = 0)"
proof -
  have h: "(Map.empty(0 := Some salg0)) (0::nat) = Some salg0"
    by simp
  have r: "fst (request DEMODULATION_LHS_CODE_TREE (imgr salg0)) = Index DEMODULATION_LHS_CODE_TREE"
    "calls (imgr salg0) = []" "refcount (imgr salg0) DEMODULATION_LHS_CODE_TREE = 0"
    by (simp_all add: request_def salg0_def refcount_def)
  from index_request_release_paired [where h = "Map.empty(0 := Some salg0)" and p = 0
      and sa = salg0 and e = engine0] h
  show ?thesis
    unfolding r by simp
qed

section \<open>Properties of forward demodulation\<close>

subsection \<open>Substitutions and the new clause\<close>

lemma subst_apply_compose:
  "subst_apply \<theta> (subst_apply \<sigma> t) = subst_apply (\<lambda>v. subst_apply \<theta> (\<sigma> v)) t"
  by (induction t) auto

lemma appl_rhsS: "subst_apply (appl s qr) rhs = hit_rhsS s qr rhs"
  by (simp add: appl_def hit_rhsS_def Let_def subst_apply_compose)

lemma fill_spec:
  "nxt + length (filter (\<lambda>c. c \<noteq> lit) ls) \<le> length res \<Longrightarrow>
   fill ls lit res nxt =
     (take nxt res @ map Some (filter (\<lambda>c. c \<noteq> lit) ls)
        @ drop (nxt + length (filter (\<lambda>c. c \<noteq> lit) ls)) res,
      nxt + length (filter (\<lambda>c. c \<noteq> lit) ls))"
proof (induction ls arbitrary: res nxt)
  case Nil
  then show ?case by simp
next
  case (Cons c ls)
  show ?case
  proof (cases "c = lit")
    case True
    with Cons show ?thesis by simp
  next
    case False
    let ?k = "length (filter (\<lambda>c. c \<noteq> lit) ls)"
    from Cons.prems False have len: "Suc nxt + ?k \<le> length res" by simp
    then have nl: "nxt < length res" by simp
    have "fill (c # ls) lit res nxt = fill ls lit (res[nxt := Some c]) (Suc nxt)"
      using False by simp
    also have "\<dots> = (take (Suc nxt) (res[nxt := Some c]) @ map Some (filter (\<lambda>c. c \<noteq> lit) ls)
                        @ drop (Suc nxt + ?k) (res[nxt := Some c]), Suc nxt + ?k)"
      using len by (intro Cons.IH) simp
    also have "take (Suc nxt) (res[nxt := Some c]) = take nxt res @ [Some c]"
      using nl by (simp add: take_Suc_conv_app_nth)
    also have "drop (Suc nxt + ?k) (res[nxt := Some c]) = drop (Suc nxt + ?k) res"
      by simp
    finally show ?thesis using False by simp
  qed
qed

lemma length_filter_neq:
  "length (filter (\<lambda>c. c \<noteq> lit) ls) + count_list ls lit = length ls"
  by (induction ls) auto

lemma read_slots_written:
  "read_slots junk i (map Some xs @ ys) = xs @ read_slots junk (i + length xs) ys"
  by (induction xs arbitrary: i) auto

lemma read_slots_unwritten: "read_slots junk i (replicate m None) = map junk [i..<i + m]"
proof (induction m arbitrary: i)
  case 0
  then show ?case by simp
next
  case (Suc m)
  have "[i..<i + Suc m] = i # [Suc i..<Suc i + m]"
    by (simp add: upt_conv_Cons)
  with Suc [of "Suc i"] show ?case by simp
qed

lemma build_result_spec:
  assumes "lit \<in> set (literals cl)"
  shows "build_result C cl lit resLit eqClause =
           (if VDEBUG C \<and> count_list (literals cl) lit \<noteq> 1 then Inl AssertionViolation
            else Inr (Clause (resLit # filter (\<lambda>c. c \<noteq> lit) (literals cl) @ unwritten_tail C cl lit)
                       (SimplifyingInference2 FORWARD_DEMODULATION cl eqClause)))"
proof -
  let ?ls = "literals cl"
  let ?k = "length (filter (\<lambda>c. c \<noteq> lit) ?ls)"
  let ?n = "length ?ls"
  have "x \<in> set xs \<Longrightarrow> 0 < count_list xs x" for x :: Literal and xs
    by (induction xs) auto
  with assms have cpos: "0 < count_list ?ls lit" by blast
  with length_filter_neq [of lit ?ls] have kn: "Suc ?k \<le> ?n" by simp
  then obtain m where n: "?n = Suc m" by (cases ?n) auto
  with kn have km: "?k \<le> m" by simp
  have res0: "(replicate ?n None)[0 := Some resLit] = Some resLit # replicate m None"
    by (simp add: n)
  have f: "fill ?ls lit (Some resLit # replicate m None) 1
             = (Some resLit # map Some (filter (\<lambda>c. c \<noteq> lit) ?ls) @ replicate (m - ?k) None, Suc ?k)"
    using kn n by (subst fill_spec) simp_all
  have c1: "(Suc ?k \<noteq> ?n) = (count_list ?ls lit \<noteq> 1)"
    using length_filter_neq [of lit ?ls] by auto
  have "read_slots (unwritten_slot C) 0
          (Some resLit # map Some (filter (\<lambda>c. c \<noteq> lit) ?ls) @ replicate (m - ?k) None)
        = resLit # filter (\<lambda>c. c \<noteq> lit) ?ls @ map (unwritten_slot C) [Suc ?k..<Suc ?k + (m - ?k)]"
    by (simp add: read_slots_written read_slots_unwritten)
  also have "Suc ?k + (m - ?k) = ?n"
    using km n by simp
  finally have r: "read_slots (unwritten_slot C) 0
          (Some resLit # map Some (filter (\<lambda>c. c \<noteq> lit) ?ls) @ replicate (m - ?k) None)
        = resLit # filter (\<lambda>c. c \<noteq> lit) ?ls @ unwritten_tail C cl lit"
    by (simp add: unwritten_tail_def)
  show ?thesis
    unfolding build_result_def Let_def res0 f
    using c1 r by simp
qed

lemma unwritten_tail_unique:
  "count_list (literals cl) lit = 1 \<Longrightarrow> unwritten_tail C cl lit = []"
  using length_filter_neq [of lit "literals cl"] by (simp add: unwritten_tail_def)

subsection \<open>One hit\<close>

lemma hit_rhsS_cong: "subst s' = subst s \<Longrightarrow> hit_rhsS s' qr rhs = hit_rhsS s qr rhs"
  by (simp add: hit_rhsS_def Let_def)

lemma sort_match_kept:
  "sort_match C trm qr s = (b, s1) \<Longrightarrow> outputs_kept s s1 \<and> log_kept s s1"
  by (auto simp: sort_match_def Let_def outputs_kept_def log_kept_def split: if_splits option.splits)

lemma encompassing_check_True:
  "encompassing_check C e lit trm rc \<Longrightarrow> rc"
  by (auto simp: encompassing_check_def Let_def split: if_splits)

lemma emit_not_Next: "emit C cl lit trm qr rhsS s \<noteq> Next x"
  by (simp add: emit_def Let_def split: sum.splits)

lemma emit_Return:
  assumes "lit \<in> set (literals cl)"
    and "emit C cl lit trm qr rhsS s1 = Return s'"
  shows "log_kept s1 s' \<and> subst s' = subst s1 \<and> premises_out s' = [data_clause qr]
         \<and> (if isEqTautology (replace lit trm rhsS)
            then replacement s' = replacement s1
                 \<and> forwardDemodulationsToEqTaut s' = forwardDemodulationsToEqTaut s1 + 1
                 \<and> forwardDemodulations s' = forwardDemodulations s1
            else replacement s' =
                   Some (Clause (replace lit trm rhsS # filter (\<lambda>c. c \<noteq> lit) (literals cl)
                                  @ unwritten_tail C cl lit)
                          (SimplifyingInference2 FORWARD_DEMODULATION cl (data_clause qr)))
                 \<and> (VDEBUG C \<and> count_list (literals cl) lit \<noteq> 1) = False
                 \<and> forwardDemodulations s' = forwardDemodulations s1 + 1
                 \<and> forwardDemodulationsToEqTaut s' = forwardDemodulationsToEqTaut s1)"
proof (cases "isEqTautology (replace lit trm rhsS)")
  case True
  with assms(2) show ?thesis
    by (auto simp: emit_def Let_def log_kept_def)
next
  case False
  with assms(2) obtain res where
    b: "build_result C cl lit (replace lit trm rhsS) (data_clause qr) = Inr res"
    and s': "s' = s1\<lparr> forwardDemodulations := forwardDemodulations s1 + 1,
                     premises_out := [data_clause qr], replacement := Some res \<rparr>"
    by (auto simp: emit_def Let_def split: sum.splits)
  from b have "(VDEBUG C \<and> count_list (literals cl) lit \<noteq> 1) = False
      \<and> res = Clause (replace lit trm rhsS # filter (\<lambda>c. c \<noteq> lit) (literals cl)
                        @ unwritten_tail C cl lit)
                (SimplifyingInference2 FORWARD_DEMODULATION cl (data_clause qr))"
    unfolding build_result_spec [OF assms(1)] by (auto split: if_splits)
  with s' False show ?thesis
    by (simp add: log_kept_def)
qed

lemma try_hit_Next:
  assumes "try_hit C e cl lit trm rc qr s = Next (rc', s')"
  shows "rc' = rc \<and> outputs_kept s s' \<and> log_kept s s'"
proof -
  obtain b s1 where sm: "sort_match C trm qr s = (b, s1)"
    by (cases "sort_match C trm qr s")
  note k = sort_match_kept [OF sm]
  have refl: "outputs_kept s s \<and> log_kept s s"
    by (simp add: outputs_kept_def log_kept_def)
  from assms sm k refl show ?thesis
    unfolding try_hit_def Let_def
    by (auto split: if_splits option.splits bool.splits
        simp: emit_not_Next dest: encompassing_check_True)
qed

lemma try_hit_Return:
  assumes "lit \<in> set (literals cl)"
    and "try_hit C e cl lit trm rc qr s = Return s'"
  shows "log_kept s s' \<and> (\<exists>rhs. emitted C e cl lit trm qr rhs s s')"
proof -
  obtain b s1 where sm: "sort_match C trm qr s = (b, s1)"
    by (cases "sort_match C trm qr s")
  note k = sort_match_kept [OF sm]
  from assms(2) sm obtain rhs where
    rhs: "getOtherEqualitySide (data_literal qr) (data_term qr) = Some rhs"
    and comp: "compatible (color C cl) (color C (data_clause qr))"
    and unit: "(VDEBUG C \<and> length (literals (data_clause qr)) \<noteq> 1) = False"
    and ord: "preordered C qr \<or> (\<not> preorderedOnly e \<and> isGreater C trm (hit_rhsS s1 qr rhs))"
    and em: "emit C cl lit trm qr (hit_rhsS s1 qr rhs) s1 = Return s'"
    unfolding try_hit_def Let_def appl_rhsS
    by (auto split: if_splits option.splits bool.splits)
  from emit_Return [OF assms(1) em] have
    e1: "log_kept s1 s'" and e2: "subst s' = subst s1" and e3: "premises_out s' = [data_clause qr]"
    and e4: "if isEqTautology (replace lit trm (hit_rhsS s1 qr rhs))
            then replacement s' = replacement s1
                 \<and> forwardDemodulationsToEqTaut s' = forwardDemodulationsToEqTaut s1 + 1
                 \<and> forwardDemodulations s' = forwardDemodulations s1
            else replacement s' =
                   Some (Clause (replace lit trm (hit_rhsS s1 qr rhs) # filter (\<lambda>c. c \<noteq> lit) (literals cl)
                                  @ unwritten_tail C cl lit)
                          (SimplifyingInference2 FORWARD_DEMODULATION cl (data_clause qr)))
                 \<and> (VDEBUG C \<and> count_list (literals cl) lit \<noteq> 1) = False
                 \<and> forwardDemodulations s' = forwardDemodulations s1 + 1
                 \<and> forwardDemodulationsToEqTaut s' = forwardDemodulationsToEqTaut s1"
    by blast+
  have h: "hit_rhsS s' qr rhs = hit_rhsS s1 qr rhs"
    using e2 by (rule hit_rhsS_cong)
  have "emitted C e cl lit trm qr rhs s s'"
    unfolding emitted_def h
    using rhs comp unit ord e3 e4 k
    by (simp add: outputs_kept_def split: if_splits)
  moreover have "log_kept s s'"
    using k e1 by (simp add: log_kept_def)
  ultimately show ?thesis by blast
qed

subsection \<open>The subterms the iterator visits\<close>

lemma nvnt_self: "\<not> isVar t \<Longrightarrow> t \<in> set (nvnt_subterms C t)"
  by (cases t) auto

lemma nvnt_not_var: "t \<in> set (nvnt_subterms C u) \<Longrightarrow> \<not> isVar t"
  by (induction C u rule: nvnt_subterms.induct) auto

lemma termArgs_in_nvnt:
  "c \<in> set (termArgs n ts) \<Longrightarrow> c \<in> set (concat (map (nvnt_subterms C) (drop n ts)))"
  by (auto simp: termArgs_def intro: nvnt_self)

lemma nvnt_closed:
  "App f ts \<in> set (nvnt_subterms C u) \<Longrightarrow> c \<in> set (termArgs (numTypeArguments C f) ts)
     \<Longrightarrow> c \<in> set (nvnt_subterms C u)"
proof (induction C u rule: nvnt_subterms.induct)
  case (1 C v)
  then show ?case by simp
next
  case (2 C g us)
  show ?case
  proof (cases "App f ts = App g us")
    case True
    with "2.prems"(2) termArgs_in_nvnt [of c "numTypeArguments C g" us C] show ?thesis
      by simp
  next
    case False
    with "2.prems"(1) obtain u where u: "u \<in> set (drop (numTypeArguments C g) us)"
      and m: "App f ts \<in> set (nvnt_subterms C u)"
      by auto
    from "2.IH" [OF u m "2.prems"(2)] u show ?thesis
      by auto
  qed
qed

lemma nvnt_lit_closed:
  "App f ts \<in> set (nvnt_subterms_lit C lit) \<Longrightarrow> c \<in> set (termArgs (numTypeArguments C f) ts)
     \<Longrightarrow> c \<in> set (nvnt_subterms_lit C lit)"
  unfolding nvnt_subterms_lit_def
  by (auto dest: nvnt_closed)

lemma iterator_new_stack:
  "set (stack (NonVariableNonTypeIterator_new C lit)) \<subseteq> set (nvnt_subterms_lit C lit)"
  unfolding NonVariableNonTypeIterator_new_def Let_def nvnt_subterms_lit_def pushAll_def
  using termArgs_in_nvnt by auto

subsection \<open>The loops\<close>

lemma log_extended_refl: "log_extended U s s"
  by (simp add: log_extended_def)

lemma log_kept_extended: "log_kept s s' \<Longrightarrow> log_extended U s s'"
  by (simp add: log_extended_def log_kept_def)

lemma log_extended_trans:
  assumes "log_extended U s s1" and "log_extended U s1 s2"
  shows "log_extended U s s2"
proof -
  from assms(1) obtain n1 where 1: "queries s1 = queries s @ n1" "distinct n1" "set n1 \<subseteq> U"
    "set n1 \<inter> attempted s = {}" "attempted s1 = attempted s \<union> set n1"
    unfolding log_extended_def by blast
  from assms(2) obtain n2 where 2: "queries s2 = queries s1 @ n2" "distinct n2" "set n2 \<subseteq> U"
    "set n2 \<inter> attempted s1 = {}" "attempted s2 = attempted s1 \<union> set n2"
    unfolding log_extended_def by blast
  have "queries s2 = queries s @ (n1 @ n2)" using 1 2 by simp
  moreover have "distinct (n1 @ n2)" using 1 2 by auto
  moreover have "set (n1 @ n2) \<subseteq> U" using 1 2 by simp
  moreover have "set (n1 @ n2) \<inter> attempted s = {}" using 1 2 by auto
  moreover have "attempted s2 = attempted s \<union> set (n1 @ n2)" using 1 2 by auto
  ultimately show ?thesis unfolding log_extended_def by blast
qed

lemma log_extended_mono: "log_extended U s s' \<Longrightarrow> U \<subseteq> V \<Longrightarrow> log_extended V s s'"
  unfolding log_extended_def by blast

lemma log_extended_step:
  assumes "trm \<in> U" and "trm \<notin> attempted s"
  shows "log_extended U s (s\<lparr> attempted := insert trm (attempted s), queries := queries s @ [trm] \<rparr>)"
  unfolding log_extended_def using assms by (intro exI [of _ "[trm]"]) simp

lemma outputs_kept_refl: "outputs_kept s s"
  by (simp add: outputs_kept_def)

lemma outputs_kept_trans: "outputs_kept s s1 \<Longrightarrow> outputs_kept s1 s2 \<Longrightarrow> outputs_kept s s2"
  by (simp add: outputs_kept_def)

lemma emitted_transfer:
  "outputs_kept s s1 \<Longrightarrow> emitted C e cl lit trm qr rhs s1 s' \<Longrightarrow> emitted C e cl lit trm qr rhs s s'"
  by (auto simp: emitted_def outputs_kept_def split: if_splits)

lemma rewrote_transfer: "outputs_kept s s1 \<Longrightarrow> rewrote C e cl s1 s' \<Longrightarrow> rewrote C e cl s s'"
  unfolding rewrote_def by (blast intro: emitted_transfer)

lemma loop_post_transfer:
  assumes "outputs_kept s s1" and "log_extended U s s1" and "loop_post C e cl U s1 r"
  shows "loop_post C e cl U s r"
proof (cases r)
  case (Abort f)
  then show ?thesis by (simp add: loop_post_def)
next
  case (Return s')
  with assms show ?thesis
    by (auto simp: loop_post_def intro: log_extended_trans rewrote_transfer)
next
  case (Next s')
  with assms show ?thesis
    by (auto simp: loop_post_def intro: log_extended_trans outputs_kept_trans)
qed

lemma loop_post_mono: "loop_post C e cl U s r \<Longrightarrow> U \<subseteq> V \<Longrightarrow> loop_post C e cl V s r"
  by (auto simp: loop_post_def split: step.splits intro: log_extended_mono)

lemma hit_loop_Next:
  "hit_loop C e cl lit trm rc git s = Next s' \<Longrightarrow> outputs_kept s s' \<and> log_kept s s'"
proof (induction git arbitrary: rc s)
  case Nil
  then show ?case by (simp add: outputs_kept_def log_kept_def)
next
  case (Cons qr git)
  from Cons.prems obtain rc1 s1 where t: "try_hit C e cl lit trm rc qr s = Next (rc1, s1)"
    and l: "hit_loop C e cl lit trm rc1 git s1 = Next s'"
    by (auto split: step.splits)
  from try_hit_Next [OF t] Cons.IH [OF l] show ?case
    by (auto simp: outputs_kept_def log_kept_def)
qed

lemma hit_loop_Return:
  assumes "lit \<in> set (literals cl)"
  shows "hit_loop C e cl lit trm rc git s = Return s' \<Longrightarrow>
         log_kept s s' \<and> (\<exists>qr rhs. qr \<in> set git \<and> emitted C e cl lit trm qr rhs s s')"
proof (induction git arbitrary: rc s)
  case Nil
  then show ?case by simp
next
  case (Cons qr git)
  show ?case
  proof (cases "try_hit C e cl lit trm rc qr s")
    case (Abort f)
    with Cons.prems show ?thesis by simp
  next
    case (Return s1)
    with Cons.prems have "s1 = s'" by simp
    with Return try_hit_Return [OF assms, of C e trm rc qr s s'] show ?thesis
      by auto
  next
    case (Next x)
    obtain rc1 s1 where x: "x = (rc1, s1)" by (cases x)
    with Next Cons.prems have l: "hit_loop C e cl lit trm rc1 git s1 = Return s'"
      by simp
    from try_hit_Next [of C e cl lit trm rc qr s rc1 s1] Next x
    have k: "outputs_kept s s1" "log_kept s s1" by simp_all
    from Cons.IH [OF l] obtain q rhs where q: "q \<in> set git"
      and em: "emitted C e cl lit trm q rhs s1 s'" and lk: "log_kept s1 s'"
      by blast
    from emitted_transfer [OF k(1) em] q lk k(2) show ?thesis
      by (auto simp: log_kept_def)
  qed
qed

lemma it_next_Cons:
  "stack it = t # stk \<Longrightarrow>
   it_next C it = Some (t, \<lparr> stack = pushAll (children C t) stk, added = length (children C t) \<rparr>)"
  by (cases t) (simp_all add: it_next_def children_def pushAll_def Let_def)

lemma it_right_after_next:
  "it_right \<lparr> stack = pushAll cs stk, added = length cs \<rparr> = \<lparr> stack = stk, added = 0 \<rparr>"
  by (simp add: it_right_def pushAll_def)

lemma subterm_loop_empty: "stack it = [] \<Longrightarrow> subterm_loop C e cl lit it s = Next s"
  by (subst subterm_loop.simps) (simp add: it_hasNext_def)

lemma subterm_loop_skip:
  "stack it = t # stk \<Longrightarrow> t \<in> attempted s \<Longrightarrow>
   subterm_loop C e cl lit it s = subterm_loop C e cl lit \<lparr> stack = stk, added = 0 \<rparr> s"
  by (subst subterm_loop.simps) (simp add: it_hasNext_def it_next_Cons it_right_after_next)

lemma subterm_loop_query:
  "stack it = t # stk \<Longrightarrow> t \<notin> attempted s \<Longrightarrow>
   subterm_loop C e cl lit it s =
     (case hit_loop C e cl lit t (redundancyCheckNeededForPremise C cl lit t)
             (getGeneralizations C t)
             (s\<lparr> attempted := insert t (attempted s), queries := queries s @ [t] \<rparr>) of
        Abort f \<Rightarrow> Abort f
      | Return s' \<Rightarrow> Return s'
      | Next s' \<Rightarrow>
          subterm_loop C e cl lit
            \<lparr> stack = pushAll (children C t) stk, added = length (children C t) \<rparr> s')"
  by (subst subterm_loop.simps) (simp add: it_hasNext_def it_next_Cons Let_def)

lemma children_closed:
  "t \<in> set (nvnt_subterms_lit C lit) \<Longrightarrow> set (children C t) \<subseteq> set (nvnt_subterms_lit C lit)"
  by (cases t) (auto simp: children_def dest: nvnt_lit_closed)

lemma stack_size_children:
  "stack_size \<lparr> stack = pushAll (children C t) stk, added = n \<rparr> < stack_size \<lparr> stack = t # stk, added = m \<rparr>"
  using it_next_decreases [of C "\<lparr> stack = t # stk, added = m \<rparr>" t
      "\<lparr> stack = pushAll (children C t) stk, added = length (children C t) \<rparr>"]
  by (simp add: it_next_Cons stack_size_def)

lemma subterm_loop_post:
  assumes "lit \<in> set (literals cl)" and "\<not> isAnswerLiteral C lit"
  shows "set (stack it) \<subseteq> set (nvnt_subterms_lit C lit) \<Longrightarrow>
         loop_post C e cl (set (nvnt_subterms_lit C lit)) s (subterm_loop C e cl lit it s)"
proof (induction "stack_size it" arbitrary: it s rule: less_induct)
  case less
  let ?U = "set (nvnt_subterms_lit C lit)"
  show ?case
  proof (cases "stack it")
    case Nil
    then show ?thesis
      by (simp add: subterm_loop_empty loop_post_def outputs_kept_refl log_extended_refl)
  next
    case (Cons t stk)
    with less.prems have tU: "t \<in> ?U" and stkU: "set stk \<subseteq> ?U" by simp_all
    have it: "it = \<lparr> stack = t # stk, added = added it \<rparr>"
      using Cons by simp
    show ?thesis
    proof (cases "t \<in> attempted s")
      case True
      have "stack_size \<lparr> stack = stk, added = 0 \<rparr> < stack_size it"
        using Cons by (simp add: stack_size_def)
      from less.hyps [OF this, of s] stkU show ?thesis
        by (simp add: subterm_loop_skip [OF Cons True])
    next
      case False
      let ?s2 = "s\<lparr> attempted := insert t (attempted s), queries := queries s @ [t] \<rparr>"
      let ?h = "hit_loop C e cl lit t (redundancyCheckNeededForPremise C cl lit t)
                  (getGeneralizations C t) ?s2"
      let ?it1 = "\<lparr> stack = pushAll (children C t) stk, added = length (children C t) \<rparr>"
      have ok: "outputs_kept s ?s2" by (simp add: outputs_kept_def)
      have le: "log_extended ?U s ?s2" using tU False by (rule log_extended_step)
      show ?thesis
      proof (cases ?h)
        case (Abort f)
        then show ?thesis
          by (simp add: subterm_loop_query [OF Cons False] loop_post_def)
      next
        case (Return s')
        from hit_loop_Return [OF assms(1) Return] obtain qr rhs where
          lk: "log_kept ?s2 s'" and qr: "qr \<in> set (getGeneralizations C t)"
          and em: "emitted C e cl lit t qr rhs ?s2 s'"
          by blast
        from lk have q: "queries s' = queries s @ [t]" by (simp add: log_kept_def)
        have "rewrote C e cl ?s2 s'"
          unfolding rewrote_def using assms tU q qr em by auto
        then have "loop_post C e cl ?U ?s2 (Return s')"
          using lk by (simp add: loop_post_def log_kept_extended)
        from loop_post_transfer [OF ok le this] Return show ?thesis
          by (simp add: subterm_loop_query [OF Cons False])
      next
        case (Next s3)
        from hit_loop_Next [OF Next] have k: "outputs_kept ?s2 s3" "log_kept ?s2 s3"
          by simp_all
        have sz: "stack_size ?it1 < stack_size it"
          using stack_size_children [of C t stk "length (children C t)" "added it"] it by simp
        have "set (stack ?it1) \<subseteq> ?U"
          using children_closed [OF tU] stkU by (auto simp: pushAll_def)
        from less.hyps [OF sz this, of s3]
        have p: "loop_post C e cl ?U s3 (subterm_loop C e cl lit ?it1 s3)" .
        have "loop_post C e cl ?U ?s2 (subterm_loop C e cl lit ?it1 s3)"
          using loop_post_transfer [OF k(1) log_kept_extended [OF k(2)] p] .
        from loop_post_transfer [OF ok le this] Next show ?thesis
          by (simp add: subterm_loop_query [OF Cons False])
      qed
    qed
  qed
qed

lemma clause_subterms_lit:
  "lit \<in> set (literals cl) \<Longrightarrow> \<not> isAnswerLiteral C lit \<Longrightarrow>
   set (nvnt_subterms_lit C lit) \<subseteq> set (clause_subterms C cl)"
  by (auto simp: clause_subterms_def)

lemma lit_loop_post:
  "set lits \<subseteq> set (literals cl) \<Longrightarrow>
   loop_post C e cl (set (clause_subterms C cl)) s (lit_loop C e cl lits s)"
proof (induction lits arbitrary: s)
  case Nil
  then show ?case
    by (simp add: loop_post_def outputs_kept_refl log_extended_refl)
next
  case (Cons lit lits)
  let ?U = "set (clause_subterms C cl)"
  from Cons.prems have lit: "lit \<in> set (literals cl)" and rest: "set lits \<subseteq> set (literals cl)"
    by simp_all
  show ?case
  proof (cases "isAnswerLiteral C lit")
    case True
    with Cons.IH [OF rest] show ?thesis by simp
  next
    case False
    let ?r = "subterm_loop C e cl lit (NonVariableNonTypeIterator_new C lit) s"
    from subterm_loop_post [OF lit False iterator_new_stack]
    have "loop_post C e cl (set (nvnt_subterms_lit C lit)) s ?r" .
    from loop_post_mono [OF this clause_subterms_lit [OF lit False]]
    have p: "loop_post C e cl ?U s ?r" .
    show ?thesis
    proof (cases ?r)
      case (Abort f)
      with False show ?thesis by (simp add: loop_post_def)
    next
      case (Return s')
      with False p show ?thesis by simp
    next
      case (Next s1)
      with p have k: "outputs_kept s s1" "log_extended ?U s s1"
        by (simp_all add: loop_post_def)
      from loop_post_transfer [OF k Cons.IH [OF rest]] Next False show ?thesis
        by simp
    qed
  qed
qed

lemma perform_post:
  assumes "perform C e cl s = Inr (b, s')"
  shows "distinct (queries s') \<and> set (queries s') \<subseteq> set (clause_subterms C cl)
         \<and> attempted s' = set (queries s')
         \<and> (if b then rewrote C e cl s s' else outputs_kept s s')"
proof -
  let ?s0 = "s\<lparr> attempted := {}, queries := [] \<rparr>"
  let ?U = "set (clause_subterms C cl)"
  have p: "loop_post C e cl ?U ?s0 (lit_loop C e cl (literals cl) ?s0)"
    by (rule lit_loop_post) simp
  have k: "outputs_kept s ?s0" by (simp add: outputs_kept_def)
  show ?thesis
  proof (cases "lit_loop C e cl (literals cl) ?s0")
    case (Abort f)
    with assms show ?thesis by (simp add: perform_def)
  next
    case (Return s1)
    with assms have b: "b" and s1: "s1 = s'" by (simp_all add: perform_def)
    from p Return s1 have "log_extended ?U ?s0 s'" and r: "rewrote C e cl ?s0 s'"
      by (simp_all add: loop_post_def)
    then have "distinct (queries s') \<and> set (queries s') \<subseteq> ?U \<and> attempted s' = set (queries s')"
      by (auto simp: log_extended_def)
    with rewrote_transfer [OF k r] b show ?thesis by simp
  next
    case (Next s1)
    with assms have b: "\<not> b" and s1: "s1 = s'" by (simp_all add: perform_def)
    from p Next s1 have "log_extended ?U ?s0 s'" and r: "outputs_kept ?s0 s'"
      by (simp_all add: loop_post_def)
    then have "distinct (queries s') \<and> set (queries s') \<subseteq> ?U \<and> attempted s' = set (queries s')"
      by (auto simp: log_extended_def)
    with outputs_kept_trans [OF k r] b show ?thesis by simp
  qed
qed

lemma hit_loop_all_skipped:
  "(\<And>qr. qr \<in> set git \<Longrightarrow> hit_skipped C e cl lit trm qr) \<Longrightarrow>
   \<exists>s'. hit_loop C e cl lit trm (redundancyCheckNeededForPremise C cl lit trm) git s = Next s'"
proof (induction git arbitrary: s)
  case Nil
  then show ?case by simp
next
  case (Cons qr git)
  let ?rc = "redundancyCheckNeededForPremise C cl lit trm"
  from Cons.prems [of qr] obtain s1 where t: "try_hit C e cl lit trm ?rc qr s = Next (?rc, s1)"
    unfolding hit_skipped_def by auto
  from Cons.IH [of s1] Cons.prems obtain s' where "hit_loop C e cl lit trm ?rc git s1 = Next s'"
    by auto
  with t show ?case by simp
qed

lemma subterm_loop_all_skipped:
  assumes "\<And>trm qr. trm \<in> set (nvnt_subterms_lit C lit) \<Longrightarrow> qr \<in> set (getGeneralizations C trm)
             \<Longrightarrow> hit_skipped C e cl lit trm qr"
  shows "set (stack it) \<subseteq> set (nvnt_subterms_lit C lit) \<Longrightarrow>
         \<exists>s'. subterm_loop C e cl lit it s = Next s'"
proof (induction "stack_size it" arbitrary: it s rule: less_induct)
  case less
  let ?U = "set (nvnt_subterms_lit C lit)"
  show ?case
  proof (cases "stack it")
    case Nil
    then show ?thesis by (simp add: subterm_loop_empty)
  next
    case (Cons t stk)
    with less.prems have tU: "t \<in> ?U" and stkU: "set stk \<subseteq> ?U" by simp_all
    have it: "it = \<lparr> stack = t # stk, added = added it \<rparr>"
      using Cons by simp
    show ?thesis
    proof (cases "t \<in> attempted s")
      case True
      have "stack_size \<lparr> stack = stk, added = 0 \<rparr> < stack_size it"
        using Cons by (simp add: stack_size_def)
      from less.hyps [OF this, of s] stkU show ?thesis
        by (simp add: subterm_loop_skip [OF Cons True])
    next
      case False
      let ?s2 = "s\<lparr> attempted := insert t (attempted s), queries := queries s @ [t] \<rparr>"
      let ?it1 = "\<lparr> stack = pushAll (children C t) stk, added = length (children C t) \<rparr>"
      from hit_loop_all_skipped [of "getGeneralizations C t" C e cl lit t ?s2] assms [OF tU]
      obtain s3 where h: "hit_loop C e cl lit t (redundancyCheckNeededForPremise C cl lit t)
                            (getGeneralizations C t) ?s2 = Next s3"
        by blast
      have sz: "stack_size ?it1 < stack_size it"
        using stack_size_children [of C t stk "length (children C t)" "added it"] it by simp
      have "set (stack ?it1) \<subseteq> ?U"
        using children_closed [OF tU] stkU by (auto simp: pushAll_def)
      from less.hyps [OF sz this, of s3] h show ?thesis
        by (simp add: subterm_loop_query [OF Cons False])
    qed
  qed
qed

lemma lit_loop_all_skipped:
  assumes "\<And>lit trm qr. lit \<in> set lits \<Longrightarrow> \<not> isAnswerLiteral C lit
             \<Longrightarrow> trm \<in> set (nvnt_subterms_lit C lit) \<Longrightarrow> qr \<in> set (getGeneralizations C trm)
             \<Longrightarrow> hit_skipped C e cl lit trm qr"
  shows "\<exists>s'. lit_loop C e cl lits s = Next s'"
  using assms
proof (induction lits arbitrary: s)
  case Nil
  then show ?case by simp
next
  case (Cons lit lits)
  show ?case
  proof (cases "isAnswerLiteral C lit")
    case True
    with Cons.IH [of s] Cons.prems show ?thesis by simp
  next
    case False
    from subterm_loop_all_skipped [of C lit e cl "NonVariableNonTypeIterator_new C lit" s]
      Cons.prems [of lit] False iterator_new_stack [of C lit]
    obtain s1 where s1: "subterm_loop C e cl lit (NonVariableNonTypeIterator_new C lit) s = Next s1"
      by auto
    from Cons.IH [of s1] Cons.prems obtain s' where "lit_loop C e cl lits s1 = Next s'"
      by auto
    with s1 False show ?thesis by simp
  qed
qed

lemma perform_True_rewrote:
  "perform C e cl s = Inr (True, s') \<Longrightarrow> rewrote C e cl s s'"
  using perform_post [of C e cl s True s'] by simp

subsection \<open>The first hit that rewrites\<close>

lemma try_hit_rewrites:
  assumes "hit_rewrites C e cl lit trm qr rhsS"
  shows "\<exists>s1. outputs_kept s s1 \<and> log_kept s s1
           \<and> try_hit C e cl lit trm (redundancyCheckNeededForPremise C cl lit trm) qr s
               = emit C cl lit trm qr rhsS s1"
proof -
  from assms obtain s1 rhs where
    r: "reaches_ordering_check C cl trm qr s s1 rhs"
    and h: "rhsS = hit_rhsS s1 qr rhs"
    and o: "preordered C qr \<or> (\<not> preorderedOnly e \<and> isGreater C trm rhsS)"
    and p: "(encompassing_check C e lit trm (redundancyCheckNeededForPremise C cl lit trm)
           \<and> \<not> isPremiseRedundant C cl lit trm rhsS (data_term qr) (unifier qr)) = False"
    unfolding hit_rewrites_def by blast
  from r have sm: "sort_match C trm qr s = (True, s1)"
    by (simp add: reaches_ordering_check_def)
  from r o p h have "try_hit C e cl lit trm (redundancyCheckNeededForPremise C cl lit trm) qr s
               = emit C cl lit trm qr rhsS s1"
    unfolding try_hit_def reaches_ordering_check_def Let_def appl_rhsS
    by auto
  with sort_match_kept [OF sm] show ?thesis by blast
qed

lemma hit_loop_first:
  assumes "\<forall>q \<in> set hpre. hit_skipped C e cl lit trm q"
    and "hit_rewrites C e cl lit trm qr rhsS"
    and "\<And>s1. emit C cl lit trm qr rhsS s1 = Return (g s1)"
  shows "\<exists>s1. outputs_kept s s1 \<and> log_kept s s1
           \<and> hit_loop C e cl lit trm (redundancyCheckNeededForPremise C cl lit trm)
                (hpre @ qr # hpost) s = Return (g s1)"
  using assms(1)
proof (induction hpre arbitrary: s)
  case Nil
  from try_hit_rewrites [OF assms(2), of s] assms(3) show ?case
    by auto
next
  case (Cons q hpre)
  let ?rc = "redundancyCheckNeededForPremise C cl lit trm"
  from Cons.prems have "hit_skipped C e cl lit trm q" by simp
  then obtain s0 where t: "try_hit C e cl lit trm ?rc q s = Next (?rc, s0)"
    unfolding hit_skipped_def by blast
  from try_hit_Next [OF t] have k: "outputs_kept s s0" "log_kept s s0" by simp_all
  from Cons.IH [of s0] Cons.prems obtain s1 where
    "outputs_kept s0 s1" "log_kept s0 s1"
    "hit_loop C e cl lit trm ?rc (hpre @ qr # hpost) s0 = Return (g s1)"
    by auto
  with t k show ?case
    by (auto simp: outputs_kept_def log_kept_def)
qed

lemma visit_terms_empty: "stack it = [] \<Longrightarrow> visit_terms C it A = []"
  by (subst visit_terms.simps) (simp add: it_hasNext_def)

lemma visit_terms_skip:
  "stack it = t # stk \<Longrightarrow> t \<in> A \<Longrightarrow>
   visit_terms C it A = visit_terms C \<lparr> stack = stk, added = 0 \<rparr> A"
  by (subst visit_terms.simps) (simp add: it_hasNext_def it_next_Cons it_right_after_next)

lemma visit_terms_query:
  "stack it = t # stk \<Longrightarrow> t \<notin> A \<Longrightarrow>
   visit_terms C it A =
     t # visit_terms C \<lparr> stack = pushAll (children C t) stk, added = length (children C t) \<rparr>
           (insert t A)"
  by (subst visit_terms.simps) (simp add: it_hasNext_def it_next_Cons)

lemma visit_terms_subset:
  "set (stack it) \<subseteq> set (nvnt_subterms_lit C lit) \<Longrightarrow>
   set (visit_terms C it A) \<subseteq> set (nvnt_subterms_lit C lit)"
proof (induction "stack_size it" arbitrary: it A rule: less_induct)
  case less
  let ?U = "set (nvnt_subterms_lit C lit)"
  show ?case
  proof (cases "stack it")
    case Nil
    then show ?thesis by (simp add: visit_terms_empty)
  next
    case (Cons t stk)
    with less.prems have tU: "t \<in> ?U" and stkU: "set stk \<subseteq> ?U" by simp_all
    have it: "it = \<lparr> stack = t # stk, added = added it \<rparr>"
      using Cons by simp
    show ?thesis
    proof (cases "t \<in> A")
      case True
      have "stack_size \<lparr> stack = stk, added = 0 \<rparr> < stack_size it"
        using Cons by (simp add: stack_size_def)
      from less.hyps [OF this, of A] stkU show ?thesis
        by (simp add: visit_terms_skip [OF Cons True])
    next
      case False
      let ?it1 = "\<lparr> stack = pushAll (children C t) stk, added = length (children C t) \<rparr>"
      have sz: "stack_size ?it1 < stack_size it"
        using stack_size_children [of C t stk "length (children C t)" "added it"] it by simp
      have "set (stack ?it1) \<subseteq> ?U"
        using children_closed [OF tU] stkU by (auto simp: pushAll_def)
      from less.hyps [OF sz this, of "insert t A"] tU show ?thesis
        by (simp add: visit_terms_query [OF Cons False])
    qed
  qed
qed

lemma subterm_loop_visit_skipped:
  "\<forall>t \<in> set (visit_terms C it (attempted s)). \<forall>q \<in> set (getGeneralizations C t).
      hit_skipped C e cl lit t q \<Longrightarrow>
   \<exists>s'. subterm_loop C e cl lit it s = Next s' \<and> outputs_kept s s'
        \<and> attempted s' = attempted s \<union> set (visit_terms C it (attempted s))
        \<and> queries s' = queries s @ visit_terms C it (attempted s)"
proof (induction "stack_size it" arbitrary: it s rule: less_induct)
  case less
  show ?case
  proof (cases "stack it")
    case Nil
    then show ?thesis
      by (simp add: subterm_loop_empty visit_terms_empty outputs_kept_refl)
  next
    case (Cons t stk)
    have it: "it = \<lparr> stack = t # stk, added = added it \<rparr>"
      using Cons by simp
    show ?thesis
    proof (cases "t \<in> attempted s")
      case True
      have "stack_size \<lparr> stack = stk, added = 0 \<rparr> < stack_size it"
        using Cons by (simp add: stack_size_def)
      from less.hyps [OF this, of s] less.prems show ?thesis
        by (simp add: subterm_loop_skip [OF Cons True] visit_terms_skip [OF Cons True])
    next
      case False
      let ?s2 = "s\<lparr> attempted := insert t (attempted s), queries := queries s @ [t] \<rparr>"
      let ?it1 = "\<lparr> stack = pushAll (children C t) stk, added = length (children C t) \<rparr>"
      note v = visit_terms_query [OF Cons False, of C]
      from less.prems v have tsk: "\<And>q. q \<in> set (getGeneralizations C t) \<Longrightarrow> hit_skipped C e cl lit t q"
        and rest: "\<forall>u \<in> set (visit_terms C ?it1 (insert t (attempted s))).
                     \<forall>q \<in> set (getGeneralizations C u). hit_skipped C e cl lit u q"
        by simp_all
      from hit_loop_all_skipped [of "getGeneralizations C t" C e cl lit t ?s2] tsk
      obtain s3 where h: "hit_loop C e cl lit t (redundancyCheckNeededForPremise C cl lit t)
                            (getGeneralizations C t) ?s2 = Next s3"
        by blast
      from hit_loop_Next [OF h] have k: "outputs_kept ?s2 s3" "log_kept ?s2 s3" by simp_all
      then have a3: "attempted s3 = insert t (attempted s)" and q3: "queries s3 = queries s @ [t]"
        by (simp_all add: log_kept_def)
      have sz: "stack_size ?it1 < stack_size it"
        using stack_size_children [of C t stk "length (children C t)" "added it"] it by simp
      from less.hyps [OF sz, of s3] rest a3 obtain s' where
        r: "subterm_loop C e cl lit ?it1 s3 = Next s'" "outputs_kept s3 s'"
           "attempted s' = attempted s3 \<union> set (visit_terms C ?it1 (attempted s3))"
           "queries s' = queries s3 @ visit_terms C ?it1 (attempted s3)"
        by auto
      have "outputs_kept s s'"
        using k(1) r(2) by (simp add: outputs_kept_def)
      with r h a3 q3 v show ?thesis
        by (simp add: subterm_loop_query [OF Cons False])
    qed
  qed
qed

lemma subterm_loop_first:
  assumes hp: "\<forall>q \<in> set hpre. hit_skipped C e cl lit trm q"
    and hits: "getGeneralizations C trm = hpre @ qr # hpost"
    and rw: "hit_rewrites C e cl lit trm qr rhsS"
    and g: "\<And>s1. emit C cl lit trm qr rhsS s1 = Return (g s1)"
  shows "visit_terms C it (attempted s) = tpre @ trm # tpost \<Longrightarrow>
         \<forall>t \<in> set tpre. \<forall>q \<in> set (getGeneralizations C t). hit_skipped C e cl lit t q \<Longrightarrow>
         \<exists>s1. outputs_kept s s1 \<and> subterm_loop C e cl lit it s = Return (g s1)"
proof (induction "stack_size it" arbitrary: it s tpre rule: less_induct)
  case less
  show ?case
  proof (cases "stack it")
    case Nil
    with less.prems(1) show ?thesis
      by (simp add: visit_terms_empty)
  next
    case (Cons t stk)
    have it: "it = \<lparr> stack = t # stk, added = added it \<rparr>"
      using Cons by simp
    show ?thesis
    proof (cases "t \<in> attempted s")
      case True
      have "stack_size \<lparr> stack = stk, added = 0 \<rparr> < stack_size it"
        using Cons by (simp add: stack_size_def)
      from less.hyps [OF this, of s tpre] less.prems show ?thesis
        by (simp add: subterm_loop_skip [OF Cons True] visit_terms_skip [OF Cons True])
    next
      case False
      let ?s2 = "s\<lparr> attempted := insert t (attempted s), queries := queries s @ [t] \<rparr>"
      let ?it1 = "\<lparr> stack = pushAll (children C t) stk, added = length (children C t) \<rparr>"
      let ?rc = "redundancyCheckNeededForPremise C cl lit t"
      note v = visit_terms_query [OF Cons False, of C]
      have ok: "outputs_kept s ?s2" by (simp add: outputs_kept_def)
      show ?thesis
      proof (cases tpre)
        case Nil
        with less.prems(1) v have tt: "t = trm" by simp
        from hit_loop_first [OF hp rw g, where hpost = hpost and s = ?s2] obtain s1 where
          "outputs_kept ?s2 s1"
          "hit_loop C e cl lit trm (redundancyCheckNeededForPremise C cl lit trm)
             (hpre @ qr # hpost) ?s2 = Return (g s1)"
          by blast
        with ok tt hits show ?thesis
          by (auto simp: subterm_loop_query [OF Cons False] outputs_kept_def)
      next
        case (Cons u tpre')
        with less.prems(1) v have ut: "u = t"
          by simp
        with Cons less.prems(1) v have
          rest: "visit_terms C ?it1 (insert t (attempted s)) = tpre' @ trm # tpost"
          by simp
        from less.prems(2) Cons ut have
          tsk: "\<And>q. q \<in> set (getGeneralizations C t) \<Longrightarrow> hit_skipped C e cl lit t q"
          and sk': "\<forall>t \<in> set tpre'. \<forall>q \<in> set (getGeneralizations C t). hit_skipped C e cl lit t q"
          by simp_all
        from hit_loop_all_skipped [of "getGeneralizations C t" C e cl lit t ?s2] tsk
        obtain s3 where h: "hit_loop C e cl lit t ?rc (getGeneralizations C t) ?s2 = Next s3"
          by blast
        from hit_loop_Next [OF h] have k: "outputs_kept ?s2 s3" "log_kept ?s2 s3" by simp_all
        then have a3: "attempted s3 = insert t (attempted s)"
          by (simp add: log_kept_def)
        have sz: "stack_size ?it1 < stack_size it"
          using stack_size_children [of C t stk "length (children C t)" "added it"] it by simp
        from less.hyps [OF sz, of s3 tpre'] rest a3 sk' obtain s1 where
          "outputs_kept s3 s1" "subterm_loop C e cl lit ?it1 s3 = Return (g s1)"
          by auto
        with k(1) h show ?thesis
          by (auto simp: subterm_loop_query [OF \<open>stack it = t # stk\<close> False] outputs_kept_def)
      qed
    qed
  qed
qed

lemma split_target:
  "xs @ ys = pre @ x # post \<Longrightarrow>
   (\<exists>post'. xs = pre @ x # post') \<or> (\<exists>pre'. pre = xs @ pre' \<and> ys = pre' @ x # post)"
  by (auto simp: append_eq_append_conv2 append_eq_Cons_conv)

lemma map_Pair_split:
  "map (Pair l) ts = pre @ (lit, trm) # post \<Longrightarrow>
   l = lit \<and> (\<exists>tpre tpost. ts = tpre @ trm # tpost \<and> pre = map (Pair l) tpre)"
  by (auto simp: map_eq_append_conv Cons_eq_map_conv)

lemma lit_loop_first:
  assumes hp: "\<forall>q \<in> set hpre. hit_skipped C e cl lit trm q"
    and hits: "getGeneralizations C trm = hpre @ qr # hpost"
    and rw: "hit_rewrites C e cl lit trm qr rhsS"
    and g: "\<And>s1. emit C cl lit trm qr rhsS s1 = Return (g s1)"
  shows "visit_lits C lits (attempted s) = vpre @ (lit, trm) # vpost \<Longrightarrow>
         \<forall>(l, t) \<in> set vpre. \<forall>q \<in> set (getGeneralizations C t). hit_skipped C e cl l t q \<Longrightarrow>
         \<exists>s1. outputs_kept s s1 \<and> lit_loop C e cl lits s = Return (g s1)"
proof (induction lits arbitrary: s vpre)
  case Nil
  then show ?case by simp
next
  case (Cons l lits)
  show ?case
  proof (cases "isAnswerLiteral C l")
    case True
    with Cons.IH [of s vpre] Cons.prems show ?thesis by simp
  next
    case False
    let ?it = "NonVariableNonTypeIterator_new C l"
    let ?ts = "visit_terms C ?it (attempted s)"
    from Cons.prems(1) False have
      eq: "map (Pair l) ?ts @ visit_lits C lits (attempted s \<union> set ?ts) = vpre @ (lit, trm) # vpost"
      by (simp add: Let_def)
    from split_target [OF eq] show ?thesis
    proof
      assume "\<exists>post'. map (Pair l) ?ts = vpre @ (lit, trm) # post'"
      then obtain post' where m: "map (Pair l) ?ts = vpre @ (lit, trm) # post'" by blast
      from map_Pair_split [OF m] obtain tpre tpost where
        ll: "l = lit" and ts: "?ts = tpre @ trm # tpost" and vp: "vpre = map (Pair l) tpre"
        by blast
      from Cons.prems(2) vp ll have
        "\<forall>t \<in> set tpre. \<forall>q \<in> set (getGeneralizations C t). hit_skipped C e cl lit t q"
        by auto
      from subterm_loop_first [OF hp hits rw g, of ?it s tpre tpost] ts ll this
      obtain s1 where "outputs_kept s s1" "subterm_loop C e cl lit ?it s = Return (g s1)"
        by auto
      with False ll show ?thesis by auto
    next
      assume "\<exists>pre'. vpre = map (Pair l) ?ts @ pre'
                \<and> visit_lits C lits (attempted s \<union> set ?ts) = pre' @ (lit, trm) # vpost"
      then obtain pre' where vp: "vpre = map (Pair l) ?ts @ pre'"
        and r: "visit_lits C lits (attempted s \<union> set ?ts) = pre' @ (lit, trm) # vpost"
        by blast
      from Cons.prems(2) vp have
        a: "\<forall>t \<in> set ?ts. \<forall>q \<in> set (getGeneralizations C t). hit_skipped C e cl l t q"
        and b: "\<forall>(l, t) \<in> set pre'. \<forall>q \<in> set (getGeneralizations C t). hit_skipped C e cl l t q"
        by auto
      from subterm_loop_visit_skipped [OF a] obtain s' where
        n: "subterm_loop C e cl l ?it s = Next s'" and k: "outputs_kept s s'"
        and at: "attempted s' = attempted s \<union> set ?ts"
        by blast
      from Cons.IH [of s' pre'] r at b obtain s1 where
        "outputs_kept s' s1" "lit_loop C e cl lits s' = Return (g s1)"
        by auto
      with n k False show ?thesis
        by (auto simp: outputs_kept_def)
    qed
  qed
qed

lemma perform_first_rewrite:
  assumes "first_rewrite C e cl lit trm qr rhsS"
    and g: "\<And>s1. emit C cl lit trm qr rhsS s1 = Return (g s1)"
  shows "\<exists>s1. outputs_kept s s1 \<and> perform C e cl s = Inr (True, g s1)"
proof -
  from assms(1) obtain vpre vpost hpre hpost where
    v: "visit_order C cl = vpre @ (lit, trm) # vpost"
    and sk: "\<forall>(l, t) \<in> set vpre. \<forall>q \<in> set (getGeneralizations C t). hit_skipped C e cl l t q"
    and hits: "getGeneralizations C trm = hpre @ qr # hpost"
    and hp: "\<forall>q \<in> set hpre. hit_skipped C e cl lit trm q"
    and rw: "hit_rewrites C e cl lit trm qr rhsS"
    unfolding first_rewrite_def by blast
  let ?s0 = "s\<lparr> attempted := {}, queries := [] \<rparr>"
  from v have "visit_lits C (literals cl) (attempted ?s0) = vpre @ (lit, trm) # vpost"
    by (simp add: visit_order_def)
  from lit_loop_first [OF hp hits rw g this sk] obtain s1 where
    "outputs_kept ?s0 s1" "lit_loop C e cl (literals cl) ?s0 = Return (g s1)"
    by blast
  then show ?thesis
    by (auto simp: perform_def outputs_kept_def)
qed

lemma visit_lits_member:
  "(lit, trm) \<in> set (visit_lits C lits A) \<Longrightarrow>
   lit \<in> set lits \<and> \<not> isAnswerLiteral C lit \<and> trm \<in> set (nvnt_subterms_lit C lit)"
proof (induction lits arbitrary: A)
  case Nil
  then show ?case by simp
next
  case (Cons l lits)
  show ?case
  proof (cases "isAnswerLiteral C l")
    case True
    with Cons show ?thesis by auto
  next
    case False
    with Cons.prems have
      "(lit = l \<and> trm \<in> set (visit_terms C (NonVariableNonTypeIterator_new C l) A))
       \<or> (lit, trm) \<in> set (visit_lits C lits (A \<union> set (visit_terms C (NonVariableNonTypeIterator_new C l) A)))"
      by (auto simp: Let_def)
    then show ?thesis
    proof
      assume "lit = l \<and> trm \<in> set (visit_terms C (NonVariableNonTypeIterator_new C l) A)"
      with visit_terms_subset [OF iterator_new_stack, of C l A] False show ?thesis
        by auto
    next
      assume "(lit, trm) \<in> set (visit_lits C lits (A \<union> set (visit_terms C (NonVariableNonTypeIterator_new C l) A)))"
      from Cons.IH [OF this] show ?thesis by simp
    qed
  qed
qed

lemma first_rewrite_member:
  "first_rewrite C e cl lit trm qr rhsS \<Longrightarrow>
   lit \<in> set (literals cl) \<and> \<not> isAnswerLiteral C lit \<and> trm \<in> set (nvnt_subterms_lit C lit)
   \<and> qr \<in> set (getGeneralizations C trm)"
proof -
  assume a: "first_rewrite C e cl lit trm qr rhsS"
  then have "(lit, trm) \<in> set (visit_lits C (literals cl) {})"
    unfolding first_rewrite_def visit_order_def by auto
  from visit_lits_member [OF this] a show ?thesis
    unfolding first_rewrite_def by auto
qed

lemma lit_loop_visit_skipped:
  "\<forall>(l, t) \<in> set (visit_lits C lits (attempted s)). \<forall>q \<in> set (getGeneralizations C t).
      hit_skipped C e cl l t q \<Longrightarrow>
   \<exists>s'. lit_loop C e cl lits s = Next s' \<and> outputs_kept s s'
        \<and> queries s' = queries s @ map snd (visit_lits C lits (attempted s))"
proof (induction lits arbitrary: s)
  case Nil
  then show ?case by (simp add: outputs_kept_refl)
next
  case (Cons l lits)
  show ?case
  proof (cases "isAnswerLiteral C l")
    case True
    with Cons.IH [of s] Cons.prems show ?thesis by simp
  next
    case False
    let ?it = "NonVariableNonTypeIterator_new C l"
    let ?ts = "visit_terms C ?it (attempted s)"
    from Cons.prems False have
      a: "\<forall>t \<in> set ?ts. \<forall>q \<in> set (getGeneralizations C t). hit_skipped C e cl l t q"
      and b: "\<forall>(l, t) \<in> set (visit_lits C lits (attempted s \<union> set ?ts)).
                \<forall>q \<in> set (getGeneralizations C t). hit_skipped C e cl l t q"
      by (auto simp: Let_def)
    from subterm_loop_visit_skipped [OF a] obtain s1 where
      n: "subterm_loop C e cl l ?it s = Next s1" and k: "outputs_kept s s1"
      and at: "attempted s1 = attempted s \<union> set ?ts" and q: "queries s1 = queries s @ ?ts"
      by blast
    from Cons.IH [of s1] b at obtain s' where
      "lit_loop C e cl lits s1 = Next s'" "outputs_kept s1 s'"
      "queries s' = queries s1 @ map snd (visit_lits C lits (attempted s1))"
      by auto
    with n k at q False show ?thesis
      by (auto simp: Let_def outputs_kept_def comp_def)
  qed
qed

lemma perform_visit_order:
  assumes "\<forall>(l, t) \<in> set (visit_order C cl). \<forall>q \<in> set (getGeneralizations C t).
             hit_skipped C e cl l t q"
  shows "\<exists>s'. perform C e cl s = Inr (False, s') \<and> queries s' = map snd (visit_order C cl)"
proof -
  let ?s0 = "s\<lparr> attempted := {}, queries := [] \<rparr>"
  from assms have "\<forall>(l, t) \<in> set (visit_lits C (literals cl) (attempted ?s0)).
      \<forall>q \<in> set (getGeneralizations C t). hit_skipped C e cl l t q"
    by (simp add: visit_order_def)
  from lit_loop_visit_skipped [OF this] show ?thesis
    by (auto simp: perform_def visit_order_def)
qed

lemma sort_match_fst_indep: "fst (sort_match C trm qr s) = fst (sort_match C trm qr s0)"
  by (simp add: sort_match_def Let_def split: option.splits)

lemma sort_match_rhsS_indep:
  "hit_rhsS (snd (sort_match C trm qr s)) qr rhs = hit_rhsS (snd (sort_match C trm qr s0)) qr rhs"
  by (simp add: sort_match_def hit_rhsS_def Let_def split: option.splits)

lemma try_hit_unfold:
  "try_hit C e cl lit trm rc qr s =
     (if VDEBUG C \<and> length (literals (data_clause qr)) \<noteq> 1 then Abort AssertionViolation
      else if \<not> compatible (color C cl) (color C (data_clause qr)) then Next (rc, s)
      else if \<not> fst (sort_match C trm qr s) then Next (rc, snd (sort_match C trm qr s))
      else
        (case getOtherEqualitySide (data_literal qr) (data_term qr) of
           None \<Rightarrow> Abort IllFormed
         | Some rhs \<Rightarrow>
             if VDEBUG C \<and> \<not> debug_assertions C qr rhs then Abort AssertionViolation
             else if \<not> preordered C qr
                     \<and> (preorderedOnly e
                         \<or> \<not> isGreater C trm (hit_rhsS (snd (sort_match C trm qr s)) qr rhs))
             then Next (rc, snd (sort_match C trm qr s))
             else if encompassing_check C e lit trm rc
                     \<and> \<not> isPremiseRedundant C cl lit trm
                           (hit_rhsS (snd (sort_match C trm qr s)) qr rhs) (data_term qr) (unifier qr)
             then Next (encompassing_check C e lit trm rc, snd (sort_match C trm qr s))
             else emit C cl lit trm qr (hit_rhsS (snd (sort_match C trm qr s)) qr rhs)
                    (snd (sort_match C trm qr s))))"
  by (cases "sort_match C trm qr s")
     (auto simp: try_hit_def Let_def appl_rhsS split: option.splits bool.splits)

lemma try_hit_Next_any:
  assumes "try_hit C e cl lit trm rc qr s = Next (rc', s')"
  shows "\<exists>s0'. try_hit C e cl lit trm rc qr s0 = Next (rc, s0')"
proof -
  note i = sort_match_fst_indep [of C trm qr s0 s] sort_match_rhsS_indep [of C trm qr s0 _ s]
  from assms show ?thesis
    unfolding try_hit_unfold [of C e cl lit trm rc qr s] try_hit_unfold [of C e cl lit trm rc qr s0] i
    by (auto split: if_splits option.splits simp: emit_not_Next dest: encompassing_check_True)
qed

lemma try_hit_Next_skipped:
  "try_hit C e cl lit trm (redundancyCheckNeededForPremise C cl lit trm) qr s = Next (rc', s') \<Longrightarrow>
   hit_skipped C e cl lit trm qr"
  unfolding hit_skipped_def using try_hit_Next_any by blast

lemma try_hit_Return_rewrites:
  assumes "lit \<in> set (literals cl)"
    and "try_hit C e cl lit trm (redundancyCheckNeededForPremise C cl lit trm) qr s = Return s'"
  shows "\<exists>rhs. emitted C e cl lit trm qr rhs s s'
           \<and> hit_rewrites C e cl lit trm qr (hit_rhsS s' qr rhs) \<and> log_kept s s'"
proof -
  let ?rc = "redundancyCheckNeededForPremise C cl lit trm"
  let ?s1 = "snd (sort_match C trm qr s)"
  from try_hit_Return [OF assms] obtain rhs where
    em: "emitted C e cl lit trm qr rhs s s'" and lk: "log_kept s s'"
    by blast
  then have rhs: "getOtherEqualitySide (data_literal qr) (data_term qr) = Some rhs"
    by (simp add: emitted_def)
  from assms(2) rhs have
    c: "(VDEBUG C \<and> length (literals (data_clause qr)) \<noteq> 1) = False"
       "compatible (color C cl) (color C (data_clause qr))"
       "fst (sort_match C trm qr s)"
       "(VDEBUG C \<and> \<not> debug_assertions C qr rhs) = False"
       "preordered C qr \<or> (\<not> preorderedOnly e \<and> isGreater C trm (hit_rhsS ?s1 qr rhs))"
       "(encompassing_check C e lit trm ?rc
          \<and> \<not> isPremiseRedundant C cl lit trm (hit_rhsS ?s1 qr rhs) (data_term qr) (unifier qr)) = False"
    and e: "emit C cl lit trm qr (hit_rhsS ?s1 qr rhs) ?s1 = Return s'"
    unfolding try_hit_unfold [of C e cl lit trm ?rc qr s]
    by (auto split: if_splits)
  from emit_Return [OF assms(1) e] have "subst s' = subst ?s1" by simp
  then have h: "hit_rhsS s' qr rhs = hit_rhsS ?s1 qr rhs"
    by (rule hit_rhsS_cong)
  define R where "R = hit_rhsS ?s1 qr rhs"
  from c(5,6) have o: "preordered C qr \<or> (\<not> preorderedOnly e \<and> isGreater C trm R)"
    and pr: "(encompassing_check C e lit trm ?rc
          \<and> \<not> isPremiseRedundant C cl lit trm R (data_term qr) (unifier qr)) = False"
    unfolding R_def by blast+
  have "hit_rewrites C e cl lit trm qr R"
    unfolding hit_rewrites_def reaches_ordering_check_def
  proof (intro allI)
    fix s0
    let ?s01 = "snd (sort_match C trm qr s0)"
    have a: "sort_match C trm qr s0 = (True, ?s01)"
      using c(3) sort_match_fst_indep [of C trm qr s0 s]
      by (cases "sort_match C trm qr s0") simp
    have b: "R = hit_rhsS ?s01 qr rhs"
      unfolding R_def by (rule sort_match_rhsS_indep)
    from a b c(1,2,4) rhs o pr show "\<exists>s1 rhs'.
          ((VDEBUG C \<and> length (literals (data_clause qr)) \<noteq> 1) = False \<and>
           compatible (color C cl) (color C (data_clause qr)) \<and>
           sort_match C trm qr s0 = (True, s1) \<and>
           getOtherEqualitySide (data_literal qr) (data_term qr) = Some rhs' \<and>
           (VDEBUG C \<and> \<not> debug_assertions C qr rhs') = False) \<and>
          R = hit_rhsS s1 qr rhs' \<and>
          (preordered C qr \<or> \<not> preorderedOnly e \<and> isGreater C trm R) \<and>
          (encompassing_check C e lit trm ?rc \<and>
           \<not> isPremiseRedundant C cl lit trm R (data_term qr) (unifier qr)) = False"
      by (intro exI [of _ ?s01] exI [of _ rhs]) blast
  qed
  then have "hit_rewrites C e cl lit trm qr (hit_rhsS ?s1 qr rhs)"
    by (simp add: R_def)
  with em lk h show ?thesis by auto
qed

lemma hit_loop_Next_skipped:
  "hit_loop C e cl lit trm (redundancyCheckNeededForPremise C cl lit trm) git s = Next s' \<Longrightarrow>
   \<forall>q \<in> set git. hit_skipped C e cl lit trm q"
proof (induction git arbitrary: s)
  case Nil
  then show ?case by simp
next
  case (Cons qr git)
  let ?rc = "redundancyCheckNeededForPremise C cl lit trm"
  from Cons.prems obtain rc1 s1 where t: "try_hit C e cl lit trm ?rc qr s = Next (rc1, s1)"
    and l: "hit_loop C e cl lit trm rc1 git s1 = Next s'"
    by (auto split: step.splits)
  from try_hit_Next [OF t] have "rc1 = ?rc" by simp
  with Cons.IH [of s1] l try_hit_Next_skipped [OF t] show ?case by simp
qed

lemma hit_loop_Return_first:
  assumes "lit \<in> set (literals cl)"
  shows "hit_loop C e cl lit trm (redundancyCheckNeededForPremise C cl lit trm) git s = Return s' \<Longrightarrow>
         \<exists>hpre qr hpost rhs. git = hpre @ qr # hpost
           \<and> (\<forall>q \<in> set hpre. hit_skipped C e cl lit trm q)
           \<and> emitted C e cl lit trm qr rhs s s'
           \<and> hit_rewrites C e cl lit trm qr (hit_rhsS s' qr rhs) \<and> log_kept s s'"
proof (induction git arbitrary: s)
  case Nil
  then show ?case by simp
next
  case (Cons q git)
  let ?rc = "redundancyCheckNeededForPremise C cl lit trm"
  show ?case
  proof (cases "try_hit C e cl lit trm ?rc q s")
    case (Abort f)
    with Cons.prems show ?thesis by simp
  next
    case (Return s1)
    with Cons.prems have "s1 = s'" by simp
    with Return try_hit_Return_rewrites [OF assms, of C e trm q s s'] obtain rhs where
      "emitted C e cl lit trm q rhs s s'" "hit_rewrites C e cl lit trm q (hit_rhsS s' q rhs)"
      "log_kept s s'"
      by blast
    then show ?thesis
      by (intro exI [of _ "[]"] exI [of _ q] exI [of _ git] exI [of _ rhs]) simp
  next
    case (Next x)
    obtain rc1 s1 where x: "x = (rc1, s1)" by (cases x)
    from try_hit_Next [of C e cl lit trm ?rc q s rc1 s1] Next x
    have k: "rc1 = ?rc" "outputs_kept s s1" "log_kept s s1" by simp_all
    from Next x k(1) Cons.prems have l: "hit_loop C e cl lit trm ?rc git s1 = Return s'"
      by simp
    from Next x have sk: "hit_skipped C e cl lit trm q"
      using try_hit_Next_skipped by blast
    from Cons.IH [OF l] obtain hpre qr hpost rhs where
      r: "git = hpre @ qr # hpost" "\<forall>q \<in> set hpre. hit_skipped C e cl lit trm q"
         "emitted C e cl lit trm qr rhs s1 s'"
         "hit_rewrites C e cl lit trm qr (hit_rhsS s' qr rhs)" "log_kept s1 s'"
      by blast
    from emitted_transfer [OF k(2) r(3)] r k(3) sk show ?thesis
      by (intro exI [of _ "q # hpre"] exI [of _ qr] exI [of _ hpost] exI [of _ rhs])
         (simp add: log_kept_def)
  qed
qed

lemma subterm_loop_Next_skipped:
  "subterm_loop C e cl lit it s = Next s' \<Longrightarrow>
   (\<forall>t \<in> set (visit_terms C it (attempted s)). \<forall>q \<in> set (getGeneralizations C t).
      hit_skipped C e cl lit t q)"
proof (induction "stack_size it" arbitrary: it s rule: less_induct)
  case less
  show ?case
  proof (cases "stack it")
    case Nil
    then show ?thesis by (simp add: visit_terms_empty)
  next
    case (Cons t stk)
    have it: "it = \<lparr> stack = t # stk, added = added it \<rparr>"
      using Cons by simp
    show ?thesis
    proof (cases "t \<in> attempted s")
      case True
      have "stack_size \<lparr> stack = stk, added = 0 \<rparr> < stack_size it"
        using Cons by (simp add: stack_size_def)
      from less.hyps [OF this, of s] less.prems show ?thesis
        by (simp add: subterm_loop_skip [OF Cons True] visit_terms_skip [OF Cons True])
    next
      case False
      let ?s2 = "s\<lparr> attempted := insert t (attempted s), queries := queries s @ [t] \<rparr>"
      let ?it1 = "\<lparr> stack = pushAll (children C t) stk, added = length (children C t) \<rparr>"
      let ?rc = "redundancyCheckNeededForPremise C cl lit t"
      from less.prems obtain s3 where
        h: "hit_loop C e cl lit t ?rc (getGeneralizations C t) ?s2 = Next s3"
        and r: "subterm_loop C e cl lit ?it1 s3 = Next s'"
        by (auto simp: subterm_loop_query [OF Cons False] split: step.splits)
      from hit_loop_Next [OF h] have a3: "attempted s3 = insert t (attempted s)"
        by (simp add: log_kept_def)
      have sz: "stack_size ?it1 < stack_size it"
        using stack_size_children [of C t stk "length (children C t)" "added it"] it by simp
      from less.hyps [OF sz r] a3 hit_loop_Next_skipped [OF h] show ?thesis
        by (simp add: visit_terms_query [OF Cons False])
    qed
  qed
qed

lemma subterm_loop_Return_first:
  assumes "lit \<in> set (literals cl)"
  shows "subterm_loop C e cl lit it s = Return s' \<Longrightarrow>
         \<exists>tpre trm tpost hpre qr hpost rhs.
             visit_terms C it (attempted s) = tpre @ trm # tpost
           \<and> (\<forall>t \<in> set tpre. \<forall>q \<in> set (getGeneralizations C t). hit_skipped C e cl lit t q)
           \<and> getGeneralizations C trm = hpre @ qr # hpost
           \<and> (\<forall>q \<in> set hpre. hit_skipped C e cl lit trm q)
           \<and> emitted C e cl lit trm qr rhs s s'
           \<and> hit_rewrites C e cl lit trm qr (hit_rhsS s' qr rhs)
           \<and> queries s' \<noteq> [] \<and> last (queries s') = trm"
proof (induction "stack_size it" arbitrary: it s rule: less_induct)
  case less
  show ?case
  proof (cases "stack it")
    case Nil
    with less.prems show ?thesis by (simp add: subterm_loop_empty)
  next
    case (Cons t stk)
    have it: "it = \<lparr> stack = t # stk, added = added it \<rparr>"
      using Cons by simp
    show ?thesis
    proof (cases "t \<in> attempted s")
      case True
      have "stack_size \<lparr> stack = stk, added = 0 \<rparr> < stack_size it"
        using Cons by (simp add: stack_size_def)
      from less.hyps [OF this, of s] less.prems show ?thesis
        by (simp add: subterm_loop_skip [OF Cons True] visit_terms_skip [OF Cons True])
    next
      case False
      let ?s2 = "s\<lparr> attempted := insert t (attempted s), queries := queries s @ [t] \<rparr>"
      let ?it1 = "\<lparr> stack = pushAll (children C t) stk, added = length (children C t) \<rparr>"
      let ?rc = "redundancyCheckNeededForPremise C cl lit t"
      let ?h = "hit_loop C e cl lit t ?rc (getGeneralizations C t) ?s2"
      note v = visit_terms_query [OF Cons False, of C]
      have ok: "outputs_kept s ?s2" by (simp add: outputs_kept_def)
      show ?thesis
      proof (cases ?h)
        case (Abort f)
        with less.prems show ?thesis
          by (simp add: subterm_loop_query [OF Cons False])
      next
        case (Return s1)
        with less.prems have "s1 = s'"
          by (simp add: subterm_loop_query [OF Cons False])
        with Return hit_loop_Return_first [OF assms, of C e t "getGeneralizations C t" ?s2 s']
        obtain hpre qr hpost rhs where
          r: "getGeneralizations C t = hpre @ qr # hpost"
             "\<forall>q \<in> set hpre. hit_skipped C e cl lit t q"
             "emitted C e cl lit t qr rhs ?s2 s'"
             "hit_rewrites C e cl lit t qr (hit_rhsS s' qr rhs)" "log_kept ?s2 s'"
          by blast
        from r(5) have q: "queries s' = queries s @ [t]" by (simp add: log_kept_def)
        from emitted_transfer [OF ok r(3)] r q v show ?thesis
          by (intro exI [of _ "[]"] exI [of _ t]
                exI [of _ "visit_terms C ?it1 (insert t (attempted s))"]
                exI [of _ hpre] exI [of _ qr] exI [of _ hpost] exI [of _ rhs]) simp
      next
        case (Next s3)
        with less.prems have r: "subterm_loop C e cl lit ?it1 s3 = Return s'"
          by (simp add: subterm_loop_query [OF Cons False])
        from hit_loop_Next [OF Next] have k: "outputs_kept ?s2 s3" "log_kept ?s2 s3" by simp_all
        then have a3: "attempted s3 = insert t (attempted s)"
          by (simp add: log_kept_def)
        have k3: "outputs_kept s s3"
          using ok k(1) by (simp add: outputs_kept_def)
        have sz: "stack_size ?it1 < stack_size it"
          using stack_size_children [of C t stk "length (children C t)" "added it"] it by simp
        from less.hyps [OF sz r] a3 obtain tpre trm tpost hpre qr hpost rhs where
          i: "visit_terms C ?it1 (insert t (attempted s)) = tpre @ trm # tpost"
             "\<forall>t \<in> set tpre. \<forall>q \<in> set (getGeneralizations C t). hit_skipped C e cl lit t q"
             "getGeneralizations C trm = hpre @ qr # hpost"
             "\<forall>q \<in> set hpre. hit_skipped C e cl lit trm q"
             "emitted C e cl lit trm qr rhs s3 s'"
             "hit_rewrites C e cl lit trm qr (hit_rhsS s' qr rhs)"
             "queries s' \<noteq> []" "last (queries s') = trm"
          by auto
        from emitted_transfer [OF k3 i(5)] i v hit_loop_Next_skipped [OF Next] show ?thesis
          by (intro exI [of _ "t # tpre"] exI [of _ trm] exI [of _ tpost]
                exI [of _ hpre] exI [of _ qr] exI [of _ hpost] exI [of _ rhs]) simp
      qed
    qed
  qed
qed

lemma lit_loop_Return_first:
  "set lits \<subseteq> set (literals cl) \<Longrightarrow> lit_loop C e cl lits s = Return s' \<Longrightarrow>
   \<exists>vpre lit trm vpost hpre qr hpost rhs.
       visit_lits C lits (attempted s) = vpre @ (lit, trm) # vpost
     \<and> (\<forall>(l, t) \<in> set vpre. \<forall>q \<in> set (getGeneralizations C t). hit_skipped C e cl l t q)
     \<and> getGeneralizations C trm = hpre @ qr # hpost
     \<and> (\<forall>q \<in> set hpre. hit_skipped C e cl lit trm q)
     \<and> emitted C e cl lit trm qr rhs s s'
     \<and> hit_rewrites C e cl lit trm qr (hit_rhsS s' qr rhs)
     \<and> queries s' \<noteq> [] \<and> last (queries s') = trm"
proof (induction lits arbitrary: s)
  case Nil
  then show ?case by simp
next
  case (Cons l lits)
  from Cons.prems have lm: "l \<in> set (literals cl)" and rest: "set lits \<subseteq> set (literals cl)"
    by simp_all
  show ?case
  proof (cases "isAnswerLiteral C l")
    case True
    with Cons.IH [OF rest, of s] Cons.prems show ?thesis by simp
  next
    case False
    let ?it = "NonVariableNonTypeIterator_new C l"
    let ?ts = "visit_terms C ?it (attempted s)"
    show ?thesis
    proof (cases "subterm_loop C e cl l ?it s")
      case (Abort f)
      with Cons.prems False show ?thesis by simp
    next
      case (Return s1)
      with Cons.prems False have "s1 = s'" by simp
      with Return subterm_loop_Return_first [OF lm, of C e ?it s s']
      obtain tpre trm tpost hpre qr hpost rhs where
        i: "?ts = tpre @ trm # tpost"
           "\<forall>t \<in> set tpre. \<forall>q \<in> set (getGeneralizations C t). hit_skipped C e cl l t q"
           "getGeneralizations C trm = hpre @ qr # hpost"
           "\<forall>q \<in> set hpre. hit_skipped C e cl l trm q"
           "emitted C e cl l trm qr rhs s s'"
           "hit_rewrites C e cl l trm qr (hit_rhsS s' qr rhs)"
           "queries s' \<noteq> []" "last (queries s') = trm"
        by blast
      from i False show ?thesis
        by (intro exI [of _ "map (Pair l) tpre"] exI [of _ l] exI [of _ trm]
              exI [of _ "map (Pair l) tpost @ visit_lits C lits (attempted s \<union> set ?ts)"]
              exI [of _ hpre] exI [of _ qr] exI [of _ hpost] exI [of _ rhs])
           (auto simp: Let_def)
    next
      case (Next s1)
      with Cons.prems False have r: "lit_loop C e cl lits s1 = Return s'" by simp
      note sk = subterm_loop_Next_skipped [OF Next]
      from subterm_loop_visit_skipped [OF sk] Next have
        k: "outputs_kept s s1" and at: "attempted s1 = attempted s \<union> set ?ts"
        by auto
      from Cons.IH [OF rest r] at obtain vpre lit trm vpost hpre qr hpost rhs where
        i: "visit_lits C lits (attempted s \<union> set ?ts) = vpre @ (lit, trm) # vpost"
           "\<forall>(l, t) \<in> set vpre. \<forall>q \<in> set (getGeneralizations C t). hit_skipped C e cl l t q"
           "getGeneralizations C trm = hpre @ qr # hpost"
           "\<forall>q \<in> set hpre. hit_skipped C e cl lit trm q"
           "emitted C e cl lit trm qr rhs s1 s'"
           "hit_rewrites C e cl lit trm qr (hit_rhsS s' qr rhs)"
           "queries s' \<noteq> []" "last (queries s') = trm"
        by auto
      from emitted_transfer [OF k i(5)] i sk False show ?thesis
        by (intro exI [of _ "map (Pair l) ?ts @ vpre"] exI [of _ lit] exI [of _ trm]
              exI [of _ vpost] exI [of _ hpre] exI [of _ qr] exI [of _ hpost] exI [of _ rhs])
           (auto simp: Let_def)
    qed
  qed
qed

lemma perform_True_first_rewrite:
  assumes "perform C e cl s = Inr (True, s')"
  shows "\<exists>lit trm qr rhs.
           first_rewrite C e cl lit trm qr (hit_rhsS s' qr rhs)
         \<and> emitted C e cl lit trm qr rhs s s' \<and> last (queries s') = trm"
proof -
  let ?s0 = "s\<lparr> attempted := {}, queries := [] \<rparr>"
  from assms have r: "lit_loop C e cl (literals cl) ?s0 = Return s'"
    by (auto simp: perform_def split: step.splits)
  have k: "outputs_kept s ?s0" by (simp add: outputs_kept_def)
  from lit_loop_Return_first [OF subset_refl r]
  obtain vpre lit trm vpost hpre qr hpost rhs where
    i: "visit_lits C (literals cl) (attempted ?s0) = vpre @ (lit, trm) # vpost"
       "\<forall>(l, t) \<in> set vpre. \<forall>q \<in> set (getGeneralizations C t). hit_skipped C e cl l t q"
       "getGeneralizations C trm = hpre @ qr # hpost"
       "\<forall>q \<in> set hpre. hit_skipped C e cl lit trm q"
       "emitted C e cl lit trm qr rhs ?s0 s'"
       "hit_rewrites C e cl lit trm qr (hit_rhsS s' qr rhs)"
       "last (queries s') = trm"
    by blast
  from i have "first_rewrite C e cl lit trm qr (hit_rhsS s' qr rhs)"
    unfolding first_rewrite_def visit_order_def by auto
  with emitted_transfer [OF k i(5)] i(7) show ?thesis by blast
qed

lemma hit_rewrites_unit:
  "hit_rewrites C e cl lit trm qr rhsS \<Longrightarrow> VDEBUG C \<longrightarrow> length (literals (data_clause qr)) = 1"
  unfolding hit_rewrites_def reaches_ordering_check_def by blast

lemma perform_True_shape:
  assumes "perform C e cl s = Inr (True, s')"
  shows "\<exists>lit trm qr rhs.
            first_rewrite C e cl lit trm qr (hit_rhsS s' qr rhs)
          \<and> lit \<in> set (literals cl) \<and> \<not> isAnswerLiteral C lit
          \<and> trm \<in> set (nvnt_subterms_lit C lit) \<and> last (queries s') = trm
          \<and> qr \<in> set (getGeneralizations C trm)
          \<and> getOtherEqualitySide (data_literal qr) (data_term qr) = Some rhs
          \<and> premises_out s' = [data_clause qr]
          \<and> (VDEBUG C \<longrightarrow> length (literals (data_clause qr)) = 1)
          \<and> (if isEqTautology (replace lit trm (hit_rhsS s' qr rhs))
             then replacement s' = replacement s
                  \<and> forwardDemodulationsToEqTaut s' = forwardDemodulationsToEqTaut s + 1
                  \<and> forwardDemodulations s' = forwardDemodulations s
             else forwardDemodulations s' = forwardDemodulations s + 1
                  \<and> forwardDemodulationsToEqTaut s' = forwardDemodulationsToEqTaut s
                  \<and> (VDEBUG C \<longrightarrow> count_list (literals cl) lit = 1)
                  \<and> (count_list (literals cl) lit = 1 \<longrightarrow>
                       replacement s' =
                         Some (Clause (replace lit trm (hit_rhsS s' qr rhs)
                                        # filter (\<lambda>c. c \<noteq> lit) (literals cl))
                                (SimplifyingInference2 FORWARD_DEMODULATION cl (data_clause qr))))
                  \<and> replacement s' =
                      Some (Clause (replace lit trm (hit_rhsS s' qr rhs)
                                     # filter (\<lambda>c. c \<noteq> lit) (literals cl) @ unwritten_tail C cl lit)
                             (SimplifyingInference2 FORWARD_DEMODULATION cl (data_clause qr))))"
proof -
  from perform_True_first_rewrite [OF assms] obtain lit trm qr rhs where
    fr: "first_rewrite C e cl lit trm qr (hit_rhsS s' qr rhs)"
    and em: "emitted C e cl lit trm qr rhs s s'" and lq: "last (queries s') = trm"
    by blast
  from first_rewrite_member [OF fr] lq fr have
    r: "first_rewrite C e cl lit trm qr (hit_rhsS s' qr rhs)"
       "lit \<in> set (literals cl)" "\<not> isAnswerLiteral C lit"
       "trm \<in> set (nvnt_subterms_lit C lit)" "last (queries s') = trm"
       "qr \<in> set (getGeneralizations C trm)"
    by simp_all
  from em have
    "getOtherEqualitySide (data_literal qr) (data_term qr) = Some rhs
     \<and> premises_out s' = [data_clause qr]
     \<and> (VDEBUG C \<longrightarrow> length (literals (data_clause qr)) = 1)
     \<and> (if isEqTautology (replace lit trm (hit_rhsS s' qr rhs))
        then replacement s' = replacement s
             \<and> forwardDemodulationsToEqTaut s' = forwardDemodulationsToEqTaut s + 1
             \<and> forwardDemodulations s' = forwardDemodulations s
        else forwardDemodulations s' = forwardDemodulations s + 1
             \<and> forwardDemodulationsToEqTaut s' = forwardDemodulationsToEqTaut s
             \<and> (VDEBUG C \<longrightarrow> count_list (literals cl) lit = 1)
             \<and> (count_list (literals cl) lit = 1 \<longrightarrow>
                  replacement s' =
                    Some (Clause (replace lit trm (hit_rhsS s' qr rhs)
                                   # filter (\<lambda>c. c \<noteq> lit) (literals cl))
                           (SimplifyingInference2 FORWARD_DEMODULATION cl (data_clause qr))))
             \<and> replacement s' =
                 Some (Clause (replace lit trm (hit_rhsS s' qr rhs)
                                # filter (\<lambda>c. c \<noteq> lit) (literals cl) @ unwritten_tail C cl lit)
                        (SimplifyingInference2 FORWARD_DEMODULATION cl (data_clause qr))))"
    unfolding emitted_def by (auto simp: unwritten_tail_unique split: if_splits)
  with r show ?thesis by blast
qed

lemma first_rewrite_tautology:
  assumes "first_rewrite C e cl lit trm qr rhsS" and "isEqTautology (replace lit trm rhsS)"
  shows "\<exists>s'. perform C e cl s = Inr (True, s')
            \<and> premises_out s' = [data_clause qr]
            \<and> replacement s' = replacement s
            \<and> forwardDemodulationsToEqTaut s' = forwardDemodulationsToEqTaut s + 1
            \<and> forwardDemodulations s' = forwardDemodulations s"
proof -
  let ?g = "\<lambda>s1. s1\<lparr> forwardDemodulationsToEqTaut := forwardDemodulationsToEqTaut s1 + 1,
                      premises_out := [data_clause qr] \<rparr>"
  have "\<And>s1. emit C cl lit trm qr rhsS s1 = Return (?g s1)"
    using assms(2) by (simp add: emit_def Let_def)
  from perform_first_rewrite [OF assms(1), of ?g, OF this, of s] obtain s1 where
    "outputs_kept s s1" "perform C e cl s = Inr (True, ?g s1)"
    by blast
  then show ?thesis
    by (intro exI [of _ "?g s1"]) (simp add: outputs_kept_def)
qed


lemma emitted_ordered:
  assumes oc: "ordering_contract C gt" and ic: "index_contract C"
    and qr: "qr \<in> set (getGeneralizations C trm)"
    and em: "emitted C e cl lit trm qr rhs s s'"
  shows "gt trm (hit_rhsS s' qr rhs)"
proof (cases "preordered C qr")
  case False
  with em have "isGreater C trm (hit_rhsS s' qr rhs)"
    by (simp add: emitted_def)
  with oc show ?thesis by (simp add: ordering_contract_def)
next
  case True
  let ?l = "data_literal qr" and ?lhs = "data_term qr"
  from ic qr obtain a0 a1 where a: "args ?l = [a0, a1]"
    and g: "getEqualityArgumentOrder C ?l = GREATER \<Longrightarrow> ?lhs = a0"
    and l: "getEqualityArgumentOrder C ?l = LESS \<Longrightarrow> ?lhs = a1"
    and m: "subst_apply (unifier qr) ?lhs = trm"
    unfolding index_contract_def by blast
  from em have rhs: "getOtherEqualitySide ?l ?lhs = Some rhs"
    by (simp add: emitted_def)
  from True have "getEqualityArgumentOrder C ?l = GREATER \<or> getEqualityArgumentOrder C ?l = LESS"
    by (auto simp: preordered_def Let_def)
  then have gt: "gt ?lhs rhs"
  proof
    assume G: "getEqualityArgumentOrder C ?l = GREATER"
    with oc a have "gt a0 a1" unfolding ordering_contract_def by blast
    moreover from g [OF G] a rhs have "rhs = a1"
      by (simp add: getOtherEqualitySide_def nthArgument_def)
    ultimately show ?thesis using g [OF G] by simp
  next
    assume L: "getEqualityArgumentOrder C ?l = LESS"
    with oc a have "gt a1 a0" unfolding ordering_contract_def by blast
    moreover from l [OF L] a rhs have "rhs = a0"
      by (auto simp: getOtherEqualitySide_def nthArgument_def split: if_splits)
    ultimately show ?thesis using l [OF L] by simp
  qed
  with oc have nv: "\<not> isVar ?lhs"
    by (cases ?lhs) (auto simp: ordering_contract_def)
  from oc gt have "gt (subst_apply (unifier qr) ?lhs) (subst_apply (unifier qr) rhs)"
    unfolding ordering_contract_def by blast
  with m nv show ?thesis
    by (simp add: hit_rhsS_def Let_def)
qed

subsection \<open>The sample configurations\<close>

lemma occurs_refl: "occurs t t"
  by (cases t) auto

lemma occurs_subst: "occurs t s \<Longrightarrow> occurs (subst_apply \<rho> t) (subst_apply \<rho> s)"
  by (induction s) (auto simp: list_ex_iff occurs_refl)

lemma subterm_gt_stable: "subterm_gt s t \<Longrightarrow> subterm_gt (subst_apply \<rho> s) (subst_apply \<rho> t)"
  by (cases s) (auto simp: subterm_gt_def list_ex_iff dest: occurs_subst)

lemma sample_ordering_contract: "ordering_contract demo_collab subterm_gt"
  unfolding ordering_contract_def
  by (auto simp: demo_collab_def subterm_gt_stable split: if_splits) (simp add: subterm_gt_def)

lemma sample_index_contract: "index_contract demo_collab"
  unfolding index_contract_def
  by (auto simp: demo_collab_def sample_index_def eq_lit_def subterm_gt_def split: TermList.splits list.splits if_splits)

lemma observe_Some:
  "observe r = Some (b, q, a, t, c, d) \<Longrightarrow>
   \<exists>s'. r = Inr (b, s') \<and> queries s' = q \<and> forwardDemodulations s' = a
        \<and> forwardDemodulationsToEqTaut s' = t \<and> replacement s' = c \<and> premises_out s' = d"
  by (auto simp: observe_def split: sum.splits)

lemma sample_run:
  "observe (perform demo_collab demo_engine goal_cl demo_state) =
    Some (True, [App 2 [App 2 [App 7 []]]], 1, 0,
      Some (Clause [Literal 5 True [App 2 [App 7 []]], Literal 2 False [App 7 []]]
        (SimplifyingInference2 FORWARD_DEMODULATION goal_cl eq_cl)), [eq_cl])"
  by code_simp

lemma memo_run:
  "observe (perform demo_collab demo_engine memo_cl demo_state) =
    Some (False, [App 3 [App 7 [], App 7 []], App 7 [], App 3 [App 4 [], App 7 []], App 4 []],
          0, 0, None, [])"
  by code_simp

lemma fail_run:
  "observe (perform C_fail demo_engine goal_cl demo_state) =
    Some (False, [App 2 [App 2 [App 7 []]], App 2 [App 7 []], App 7 []], 0, 0, None, [])"
  by code_simp

lemma sample_preordered: "qr \<in> set (getGeneralizations demo_collab trm) \<Longrightarrow> preordered demo_collab qr"
  by (auto simp: demo_collab_def sample_index_def preordered_def eq_lit_def subterm_gt_def
      split: TermList.splits list.splits if_splits)

lemma C_fail_fields:
  "VDEBUG C_fail" "color C_fail goal_cl = COLOR_RIGHT" "color C_fail left_cl = COLOR_LEFT"
  "color C_fail var_cl = COLOR_TRANSPARENT" "color C_fail unordered_cl = COLOR_TRANSPARENT"
  "color C_fail eq_cl = COLOR_TRANSPARENT"
  "subst_match C_fail = (\<lambda>_ _. None)" "isGreater C_fail = subterm_gt"
  "redundancyCheckNeededForPremise C_fail = (\<lambda>_ _ _. True)"
  "isPremiseRedundant C_fail = (\<lambda>_ _ _ _ _ _. False)"
  "getGeneralizations C_fail = failing_index"
  "isAnswerLiteral C_fail = (\<lambda>l. functor_of l = 9)"
  "numTypeArguments C_fail = (\<lambda>_. 0)" "numTypeArgumentsPred C_fail = (\<lambda>_. 0)"
  by (simp_all add: C_fail_def demo_collab_def goal_cl_def left_cl_def var_cl_def
      unordered_cl_def eq_cl_def eq_lit_def)

lemma C_fail_order:
  "getEqualityArgumentOrder C_fail (Literal 0 True [App 2 [Var 0], App 3 [Var 0, Var 0]]) = INCOMPARABLE"
  "getEqualityArgumentOrder C_fail (Literal 0 True [App 2 [Var 0], Var 0]) = GREATER"
  by (simp_all add: C_fail_def demo_collab_def eq_lit_def subterm_gt_def)

lemma sample_literals:
  "literals left_cl = [Literal 0 True [App 2 [Var 0], App 7 []]]"
  "literals var_cl = [Literal 0 True [Var 0, App 7 []]]"
  "literals unordered_cl = [Literal 0 True [App 2 [Var 0], App 3 [Var 0, Var 0]]]"
  "literals eq_cl = [Literal 0 True [App 2 [Var 0], Var 0]]"
  by (simp_all add: left_cl_def var_cl_def unordered_cl_def eq_cl_def eq_lit_def)

lemma colour_hit_skipped:
  "try_hit C_fail demo_engine goal_cl lit trm rc (hit_of left_cl lhs u) s = Next (rc, s)"
  by (simp add: try_hit_def hit_of_def C_fail_fields compatible_def sample_literals)

lemma sort_hit_skipped:
  "try_hit C_fail demo_engine goal_cl lit trm rc (hit_of var_cl (Var 0) u) s
     = Next (rc, s\<lparr> subst := Var \<rparr>)"
  by (simp add: try_hit_def hit_of_def C_fail_fields compatible_def sort_match_def sample_literals)

lemma order_hit_skipped:
  "\<not> occurs (App 3 [u, u]) u \<Longrightarrow>
   try_hit C_fail demo_engine goal_cl lit (App 2 [u]) rc (hit_of unordered_cl (App 2 [Var 0]) u) s
     = Next (rc, s)"
  by (simp add: try_hit_def hit_of_def C_fail_fields compatible_def sort_match_def
      sample_literals getOtherEqualitySide_def nthArgument_def debug_assertions_def
      preordered_def Let_def C_fail_order appl_def subterm_gt_def)

lemma redundant_hit_skipped:
  "try_hit C_fail demo_engine goal_cl lit (App 2 [u]) True (hit_of eq_cl (App 2 [Var 0]) u) s
     = Next (True, s)"
  by (simp add: try_hit_def hit_of_def C_fail_fields compatible_def sort_match_def
      sample_literals getOtherEqualitySide_def nthArgument_def debug_assertions_def
      preordered_def Let_def C_fail_order encompassing_check_def demo_engine_def)

lemma C_fail_subterms:
  "literals goal_cl = [Literal 5 True [App 2 [App 2 [App 7 []]]], Literal 2 False [App 7 []]]"
  "nvnt_subterms_lit C_fail (Literal 5 True [App 2 [App 2 [App 7 []]]])
     = [App 2 [App 2 [App 7 []]], App 2 [App 7 []], App 7 []]"
  "nvnt_subterms_lit C_fail (Literal 2 False [App 7 []]) = [App 7 []]"
  by (simp_all add: goal_cl_def nvnt_subterms_lit_def C_fail_fields)

lemma C_fail_all_skipped: "all_hits_skipped C_fail demo_engine goal_cl"
  unfolding all_hits_skipped_def hit_skipped_def
  by (simp add: C_fail_subterms C_fail_fields failing_index_def colour_hit_skipped
      sort_hit_skipped order_hit_skipped redundant_hit_skipped)

lemma taut2_run:
  "observe (perform release_collab demo_engine taut2_cl demo_state) =
    Some (True, [App 7 [], App 2 [App 7 []]], 0, 1, None, [eq_cl])"
  by code_simp



lemma dup_debug_run:
  "(case perform demo_collab demo_engine dup_cl demo_state of
      Inl f \<Rightarrow> f = AssertionViolation | Inr r \<Rightarrow> False)"
  by code_simp

lemma visit_taut2:
  "visit_order release_collab taut2_cl =
     [(Literal 5 True [App 7 []], App 7 []),
      (Literal 0 True [App 2 [App 7 []], App 7 []], App 2 [App 7 []])]"
  by code_simp


lemma release_fields:
  "VDEBUG release_collab = False"
  "color release_collab left_cl = COLOR_LEFT" "color release_collab eq_cl = COLOR_TRANSPARENT"
  "color release_collab taut2_cl = COLOR_RIGHT" "color release_collab shape_cl = COLOR_RIGHT"
  "getGeneralizations release_collab = release_index"
  "redundancyCheckNeededForPremise release_collab = (\<lambda>_ _ _. False)"
  by (simp_all add: release_collab_def demo_collab_def left_cl_def eq_cl_def eq_lit_def taut2_cl_def shape_cl_def)

lemma release_order:
  "getEqualityArgumentOrder release_collab (Literal 0 True [App 2 [Var 0], Var 0]) = GREATER"
  by (simp add: release_collab_def demo_collab_def subterm_gt_def)

lemma release_left_skipped:
  "color release_collab cl = COLOR_RIGHT \<Longrightarrow>
   hit_skipped release_collab demo_engine cl lit trm (hit_of left_cl lhs u)"
  by (simp add: hit_skipped_def try_hit_def hit_of_def release_fields compatible_def)

lemma release_eq_rewrites:
  "color release_collab cl = COLOR_RIGHT \<Longrightarrow>
   hit_rewrites release_collab demo_engine cl lit trm (hit_of eq_cl (App 2 [Var 0]) u) u"
  by (simp add: hit_rewrites_def reaches_ordering_check_def hit_of_def release_fields
      compatible_def sort_match_def sample_literals getOtherEqualitySide_def nthArgument_def
      preordered_def Let_def release_order hit_rhsS_def encompassing_check_def)

lemma taut2_first_rewrite:
  "first_rewrite release_collab demo_engine taut2_cl
     (Literal 0 True [App 2 [App 7 []], App 7 []]) (App 2 [App 7 []])
     (hit_of eq_cl (App 2 [Var 0]) (App 7 [])) (App 7 [])"
  unfolding first_rewrite_def
  apply (rule exI [of _ "[(Literal 5 True [App 7 []], App 7 [])]"])
  apply (rule exI [of _ "[]"])
  apply (rule exI [of _ "[hit_of left_cl (App 2 [Var 0]) (App 7 [])]"])
  apply (rule exI [of _ "[]"])
  apply (simp add: visit_taut2 release_fields release_index_def release_left_skipped
      release_eq_rewrites)
  done



subsection \<open>The claims\<close>

text \<open>
  C1. Every rewrite \<open>perform\<close> emits is ordered. Let the ordering object answer by an
  ordering \<open>gt\<close> (\<open>ordering_contract\<close>) and the index return generalisations
  (\<open>index_contract\<close>). Whenever \<open>perform\<close> returns true, it has replaced a subterm
  \<open>trm\<close> of a literal of \<open>cl\<close> by the instantiated other side \<open>hit_rhsS s' qr rhs\<close> of
  a hit \<open>qr\<close> for \<open>trm\<close>, and \<open>trm\<close> is greater than that term under \<open>gt\<close>. This holds
  when the equality is pre-ordered and when it is not; in the second case
  \<open>_preorderedOnly\<close> is off and \<open>isGreater\<close> has answered true, so with
  \<open>_preorderedOnly\<close> set only pre-ordered equalities rewrite.
\<close>

theorem forward_demodulation_ordered:
  assumes "ordering_contract C gt" and "index_contract C"
    and "perform C e cl s = Inr (True, s')"
  shows "\<exists>lit trm qr rhs.
           lit \<in> set (literals cl) \<and> trm \<in> set (nvnt_subterms_lit C lit)
         \<and> qr \<in> set (getGeneralizations C trm)
         \<and> emitted C e cl lit trm qr rhs s s'
         \<and> gt trm (hit_rhsS s' qr rhs)
         \<and> (preordered C qr \<or> (\<not> preorderedOnly e \<and> isGreater C trm (hit_rhsS s' qr rhs)))
         \<and> (preorderedOnly e \<longrightarrow> preordered C qr)"
proof -
  from perform_post [OF assms(3)] have "rewrote C e cl s s'" by simp
  then obtain lit trm qr rhs where r: "lit \<in> set (literals cl)"
    "trm \<in> set (nvnt_subterms_lit C lit)" "qr \<in> set (getGeneralizations C trm)"
    "emitted C e cl lit trm qr rhs s s'"
    unfolding rewrote_def by blast
  from emitted_ordered [OF assms(1,2) r(3,4)] have "gt trm (hit_rhsS s' qr rhs)" .
  moreover from r(4) have "preordered C qr \<or> (\<not> preorderedOnly e \<and> isGreater C trm (hit_rhsS s' qr rhs))"
    by (simp add: emitted_def)
  ultimately show ?thesis using r by blast
qed

theorem forward_demodulation_ordered_witness:
  "ordering_contract demo_collab subterm_gt \<and> index_contract demo_collab
   \<and> (\<exists>s'. perform demo_collab demo_engine goal_cl demo_state = Inr (True, s')
        \<and> (\<exists>lit trm qr rhs.
             lit \<in> set (literals goal_cl) \<and> trm \<in> set (nvnt_subterms_lit demo_collab lit)
           \<and> qr \<in> set (getGeneralizations demo_collab trm)
           \<and> emitted demo_collab demo_engine goal_cl lit trm qr rhs demo_state s'
           \<and> subterm_gt trm (hit_rhsS s' qr rhs)
           \<and> preordered demo_collab qr))
   \<and> subterm_gt (App 2 [App 2 [App 7 []]]) (App 2 [App 7 []])"
proof -
  from observe_Some [OF sample_run] obtain s' where p: "perform demo_collab demo_engine goal_cl demo_state = Inr (True, s')"
    by blast
  from forward_demodulation_ordered [OF sample_ordering_contract sample_index_contract p]
  have "\<exists>lit trm qr rhs.
             lit \<in> set (literals goal_cl) \<and> trm \<in> set (nvnt_subterms_lit demo_collab lit)
           \<and> qr \<in> set (getGeneralizations demo_collab trm)
           \<and> emitted demo_collab demo_engine goal_cl lit trm qr rhs demo_state s'
           \<and> subterm_gt trm (hit_rhsS s' qr rhs)
           \<and> preordered demo_collab qr"
    using sample_preordered by blast
  moreover have "subterm_gt (App 2 [App 2 [App 7 []]]) (App 2 [App 7 []])"
    by (simp add: subterm_gt_def)
  ultimately show ?thesis
    using sample_ordering_contract sample_index_contract p by blast
qed




text \<open>
  C3. When the first hit that is not skipped, in the order of the three loops, is a hit
  \<open>qr\<close> for the subterm \<open>trm\<close> of the literal \<open>lit\<close> and replacing \<open>trm\<close> by the
  instantiated right-hand side in \<open>lit\<close> yields an equality tautology, \<open>perform\<close>
  returns true, in a \<open>VDEBUG\<close> build and without it, wherever \<open>lit\<close> stands in \<open>cl\<close>:
  \<open>premises\<close> is the singleton of the equality's clause, the counter of tautologies went
  up by one, and \<open>replacement\<close> is not assigned: it is what the caller passed (null when
  the caller passed null). Conversely, whenever \<open>perform\<close> returns true, it is for
  the first hit that is not skipped, and either the rewritten literal is an equality
  tautology and \<open>replacement\<close> is what the caller passed, or it is not and
  \<open>replacement\<close> is assigned a clause.
\<close>

theorem equality_tautology_deletes:
  "(first_rewrite C e cl lit trm qr rhsS \<and> isEqTautology (replace lit trm rhsS) \<longrightarrow>
      lit \<in> set (literals cl) \<and> trm \<in> set (nvnt_subterms_lit C lit)
      \<and> qr \<in> set (getGeneralizations C trm)
      \<and> (VDEBUG C \<longrightarrow> length (literals (data_clause qr)) = 1)
      \<and> (\<exists>s'. perform C e cl s = Inr (True, s')
            \<and> premises_out s' = [data_clause qr]
            \<and> replacement s' = replacement s
            \<and> forwardDemodulationsToEqTaut s' = forwardDemodulationsToEqTaut s + 1
            \<and> forwardDemodulations s' = forwardDemodulations s))
   \<and> (perform C e cl s = Inr (True, s2) \<longrightarrow>
        (\<exists>lit trm qr rhs.
            first_rewrite C e cl lit trm qr (hit_rhsS s2 qr rhs)
          \<and> lit \<in> set (literals cl) \<and> trm \<in> set (nvnt_subterms_lit C lit)
          \<and> qr \<in> set (getGeneralizations C trm)
          \<and> getOtherEqualitySide (data_literal qr) (data_term qr) = Some rhs
          \<and> premises_out s2 = [data_clause qr]
          \<and> (if isEqTautology (replace lit trm (hit_rhsS s2 qr rhs))
              then replacement s2 = replacement s
                   \<and> forwardDemodulationsToEqTaut s2 = forwardDemodulationsToEqTaut s + 1
                   \<and> forwardDemodulations s2 = forwardDemodulations s
              else replacement s2 \<noteq> None
                   \<and> forwardDemodulationsToEqTaut s2 = forwardDemodulationsToEqTaut s)))"
proof (rule conjI; rule impI)
  assume a: "first_rewrite C e cl lit trm qr rhsS \<and> isEqTautology (replace lit trm rhsS)"
  then have fr: "first_rewrite C e cl lit trm qr rhsS" and ta: "isEqTautology (replace lit trm rhsS)"
    by simp_all
  from fr have "hit_rewrites C e cl lit trm qr rhsS"
    unfolding first_rewrite_def by blast
  from first_rewrite_member [OF fr] first_rewrite_tautology [OF fr ta, of s]
    hit_rewrites_unit [OF this]
  show "lit \<in> set (literals cl) \<and> trm \<in> set (nvnt_subterms_lit C lit)
      \<and> qr \<in> set (getGeneralizations C trm)
      \<and> (VDEBUG C \<longrightarrow> length (literals (data_clause qr)) = 1)
      \<and> (\<exists>s'. perform C e cl s = Inr (True, s')
            \<and> premises_out s' = [data_clause qr]
            \<and> replacement s' = replacement s
            \<and> forwardDemodulationsToEqTaut s' = forwardDemodulationsToEqTaut s + 1
            \<and> forwardDemodulations s' = forwardDemodulations s)"
    by blast
next
  assume p: "perform C e cl s = Inr (True, s2)"
  from perform_True_shape [OF p] obtain lit trm qr rhs where
    r: "first_rewrite C e cl lit trm qr (hit_rhsS s2 qr rhs)"
       "lit \<in> set (literals cl)" "trm \<in> set (nvnt_subterms_lit C lit)"
       "qr \<in> set (getGeneralizations C trm)"
       "getOtherEqualitySide (data_literal qr) (data_term qr) = Some rhs"
       "premises_out s2 = [data_clause qr]"
    and i: "if isEqTautology (replace lit trm (hit_rhsS s2 qr rhs))
           then replacement s2 = replacement s
                \<and> forwardDemodulationsToEqTaut s2 = forwardDemodulationsToEqTaut s + 1
                \<and> forwardDemodulations s2 = forwardDemodulations s
           else forwardDemodulations s2 = forwardDemodulations s + 1
                \<and> forwardDemodulationsToEqTaut s2 = forwardDemodulationsToEqTaut s
                \<and> (VDEBUG C \<longrightarrow> count_list (literals cl) lit = 1)
                \<and> (count_list (literals cl) lit = 1 \<longrightarrow>
                     replacement s2 =
                       Some (Clause (replace lit trm (hit_rhsS s2 qr rhs)
                                      # filter (\<lambda>c. c \<noteq> lit) (literals cl))
                              (SimplifyingInference2 FORWARD_DEMODULATION cl (data_clause qr))))
                \<and> replacement s2 =
                    Some (Clause (replace lit trm (hit_rhsS s2 qr rhs)
                                   # filter (\<lambda>c. c \<noteq> lit) (literals cl) @ unwritten_tail C cl lit)
                           (SimplifyingInference2 FORWARD_DEMODULATION cl (data_clause qr)))"
    by blast
  from i have "if isEqTautology (replace lit trm (hit_rhsS s2 qr rhs))
              then replacement s2 = replacement s
                   \<and> forwardDemodulationsToEqTaut s2 = forwardDemodulationsToEqTaut s + 1
                   \<and> forwardDemodulations s2 = forwardDemodulations s
              else replacement s2 \<noteq> None
                   \<and> forwardDemodulationsToEqTaut s2 = forwardDemodulationsToEqTaut s"
    by (simp split: if_splits)
  with r show "\<exists>lit trm qr rhs.
            first_rewrite C e cl lit trm qr (hit_rhsS s2 qr rhs)
          \<and> lit \<in> set (literals cl) \<and> trm \<in> set (nvnt_subterms_lit C lit)
          \<and> qr \<in> set (getGeneralizations C trm)
          \<and> getOtherEqualitySide (data_literal qr) (data_term qr) = Some rhs
          \<and> premises_out s2 = [data_clause qr]
          \<and> (if isEqTautology (replace lit trm (hit_rhsS s2 qr rhs))
              then replacement s2 = replacement s
                   \<and> forwardDemodulationsToEqTaut s2 = forwardDemodulationsToEqTaut s + 1
                   \<and> forwardDemodulations s2 = forwardDemodulations s
              else replacement s2 \<noteq> None
                   \<and> forwardDemodulationsToEqTaut s2 = forwardDemodulationsToEqTaut s)"
    by blast
qed

theorem equality_tautology_deletes_witness:
  "first_rewrite release_collab demo_engine taut2_cl (Literal 0 True [App 2 [App 7 []], App 7 []])
     (App 2 [App 7 []]) (hit_of eq_cl (App 2 [Var 0]) (App 7 [])) (App 7 [])
   \<and> isEqTautology (replace (Literal 0 True [App 2 [App 7 []], App 7 []]) (App 2 [App 7 []]) (App 7 []))
   \<and> Literal 0 True [App 2 [App 7 []], App 7 []] \<in> set (literals taut2_cl)
   \<and> (\<exists>s'. perform release_collab demo_engine taut2_cl demo_state = Inr (True, s')
        \<and> premises_out s' = [eq_cl]
        \<and> replacement s' = None \<and> replacement s' = replacement demo_state
        \<and> forwardDemodulationsToEqTaut s' = 1 \<and> forwardDemodulations s' = 0
        \<and> (\<exists>lit trm qr rhs.
              lit \<in> set (literals taut2_cl) \<and> trm \<in> set (nvnt_subterms_lit release_collab lit)
            \<and> qr \<in> set (getGeneralizations release_collab trm)
            \<and> getOtherEqualitySide (data_literal qr) (data_term qr) = Some rhs
            \<and> premises_out s' = [data_clause qr]
            \<and> isEqTautology (replace lit trm (hit_rhsS s' qr rhs))))"
proof -
  let ?L = "Literal 0 True [App 2 [App 7 []], App 7 []]"
  let ?T = "App 2 [App 7 []]"
  let ?Q = "hit_of eq_cl (App 2 [Var 0]) (App 7 [])"
  have ta: "isEqTautology (replace ?L ?T (App 7 []))"
    by (simp add: isEqTautology_def replace_def isEquality_def)
  have d0: "replacement demo_state = None" "forwardDemodulations demo_state = 0"
    "forwardDemodulationsToEqTaut demo_state = 0" "data_clause ?Q = eq_cl"
    by (simp_all add: demo_state_def hit_of_def)
  note th = equality_tautology_deletes [where C = release_collab and e = demo_engine
      and cl = taut2_cl and lit = ?L and trm = ?T and qr = ?Q and rhsS = "App 7 []"
      and s = demo_state]
  from th [THEN conjunct1, THEN mp] taut2_first_rewrite ta obtain s' where
    m: "?L \<in> set (literals taut2_cl)"
    and p: "perform release_collab demo_engine taut2_cl demo_state = Inr (True, s')"
    and o: "premises_out s' = [data_clause ?Q]" "replacement s' = replacement demo_state"
      "forwardDemodulationsToEqTaut s' = forwardDemodulationsToEqTaut demo_state + 1"
      "forwardDemodulations s' = forwardDemodulations demo_state"
    by blast
  from th [where ?s2.0 = s', THEN conjunct2, THEN mp, OF p] obtain lit trm qr rhs where
    fr: "first_rewrite release_collab demo_engine taut2_cl lit trm qr (hit_rhsS s' qr rhs)"
    and r: "lit \<in> set (literals taut2_cl)" "trm \<in> set (nvnt_subterms_lit release_collab lit)"
       "qr \<in> set (getGeneralizations release_collab trm)"
       "getOtherEqualitySide (data_literal qr) (data_term qr) = Some rhs"
       "premises_out s' = [data_clause qr]"
    and i: "if isEqTautology (replace lit trm (hit_rhsS s' qr rhs))
              then replacement s' = replacement demo_state
                   \<and> forwardDemodulationsToEqTaut s' = forwardDemodulationsToEqTaut demo_state + 1
                   \<and> forwardDemodulations s' = forwardDemodulations demo_state
              else replacement s' \<noteq> None
                   \<and> forwardDemodulationsToEqTaut s' = forwardDemodulationsToEqTaut demo_state"
    by blast
  have "isEqTautology (replace lit trm (hit_rhsS s' qr rhs))"
  proof (rule ccontr)
    assume "\<not> isEqTautology (replace lit trm (hit_rhsS s' qr rhs))"
    with i have "replacement s' \<noteq> None" by simp
    with o(2) d0(1) show False by simp
  qed
  with r have "\<exists>lit trm qr rhs.
              lit \<in> set (literals taut2_cl) \<and> trm \<in> set (nvnt_subterms_lit release_collab lit)
            \<and> qr \<in> set (getGeneralizations release_collab trm)
            \<and> getOtherEqualitySide (data_literal qr) (data_term qr) = Some rhs
            \<and> premises_out s' = [data_clause qr]
            \<and> isEqTautology (replace lit trm (hit_rhsS s' qr rhs))"
    by blast
  with taut2_first_rewrite ta m p o d0 show ?thesis
    by auto
qed

text \<open>
  C4. Within one call of \<open>perform\<close> no term is queried against the index twice, and
  every queried term is a non-variable non-type subterm of a literal of \<open>cl\<close> that is
  not an answer literal; the memo set ends as the set of the queried terms. A term
  already in the memo set is skipped with its subterms: the iterator continues with
  the stack below it. An answer literal is passed over.
\<close>

theorem subterms_queried_at_most_once:
  "(perform C e cl s = Inr (b, s') \<longrightarrow>
      distinct (queries s')
      \<and> (\<forall>t \<in> set (queries s'). \<not> isVar t \<and> t \<in> set (clause_subterms C cl))
      \<and> attempted s' = set (queries s'))
   \<and> (t \<in> attempted s0 \<longrightarrow>
        subterm_loop C e cl lit \<lparr> stack = t # stk, added = n \<rparr> s0
          = subterm_loop C e cl lit \<lparr> stack = stk, added = 0 \<rparr> s0)
   \<and> (isAnswerLiteral C lit \<longrightarrow> lit_loop C e cl (lit # lits) s0 = lit_loop C e cl lits s0)"
proof -
  have nv: "\<not> isVar u" if "u \<in> set (clause_subterms C cl)" for u
    using that unfolding clause_subterms_def nvnt_subterms_lit_def
    by (auto dest: nvnt_not_var)
  have "distinct (queries s')
      \<and> (\<forall>t \<in> set (queries s'). \<not> isVar t \<and> t \<in> set (clause_subterms C cl))
      \<and> attempted s' = set (queries s')" if "perform C e cl s = Inr (b, s')"
    using perform_post [OF that] nv by auto
  moreover have "t \<in> attempted s0 \<longrightarrow>
        subterm_loop C e cl lit \<lparr> stack = t # stk, added = n \<rparr> s0
          = subterm_loop C e cl lit \<lparr> stack = stk, added = 0 \<rparr> s0"
    using subterm_loop_skip [of "\<lparr> stack = t # stk, added = n \<rparr>" t stk s0 C e cl lit] by simp
  moreover have "isAnswerLiteral C lit \<longrightarrow> lit_loop C e cl (lit # lits) s0 = lit_loop C e cl lits s0"
    by simp
  ultimately show ?thesis by blast
qed

theorem subterms_queried_at_most_once_witness:
  "(\<exists>s'. perform demo_collab demo_engine memo_cl demo_state = Inr (False, s')
       \<and> queries s' = [App 3 [App 7 [], App 7 []], App 7 [], App 3 [App 4 [], App 7 []], App 4 []]
       \<and> distinct (queries s')
       \<and> (\<forall>t \<in> set (queries s'). \<not> isVar t \<and> t \<in> set (clause_subterms demo_collab memo_cl))
       \<and> attempted s' = set (queries s'))
   \<and> App 5 [App 6 []] \<in> attempted (demo_state\<lparr> attempted := {App 5 [App 6 []]} \<rparr>)
   \<and> subterm_loop demo_collab demo_engine memo_cl answer_lit \<lparr> stack = [App 5 [App 6 []]], added = 1 \<rparr>
        (demo_state\<lparr> attempted := {App 5 [App 6 []]} \<rparr>)
      = subterm_loop demo_collab demo_engine memo_cl answer_lit \<lparr> stack = [], added = 0 \<rparr>
          (demo_state\<lparr> attempted := {App 5 [App 6 []]} \<rparr>)
   \<and> isAnswerLiteral demo_collab answer_lit
   \<and> lit_loop demo_collab demo_engine memo_cl (answer_lit # [Literal 2 True [App 3 [App 4 [], App 7 []], App 7 []]]) demo_state
      = lit_loop demo_collab demo_engine memo_cl [Literal 2 True [App 3 [App 4 [], App 7 []], App 7 []]] demo_state"
proof -
  let ?sa = "demo_state\<lparr> attempted := {App 5 [App 6 []]} \<rparr>"
  from observe_Some [OF memo_run] obtain s' where p: "perform demo_collab demo_engine memo_cl demo_state = Inr (False, s')"
    and q: "queries s' = [App 3 [App 7 [], App 7 []], App 7 [], App 3 [App 4 [], App 7 []], App 4 []]"
    by blast
  have a: "App 5 [App 6 []] \<in> attempted ?sa" by simp
  have b: "isAnswerLiteral demo_collab answer_lit" by (simp add: demo_collab_def answer_lit_def)
  from subterms_queried_at_most_once [where C = demo_collab and e = demo_engine and cl = memo_cl and s = demo_state
      and b = False and s' = s' and t = "App 5 [App 6 []]" and ?s0.0 = ?sa and lit = answer_lit
      and stk = "[]" and n = 1 and lits = "[Literal 2 True [App 3 [App 4 [], App 7 []], App 7 []]]"]
    p q a b
  show ?thesis
    by auto
qed

text \<open>
  C8. A hit that fails a check is skipped, not an error: incompatible colours, a failed
  sort match for a variable left-hand side, a failed ordering check and a failed
  premise-redundancy check each end the body of the loop in \<open>continue\<close>. A skipped hit
  leaves \<open>redundancyCheck\<close>, the counters, \<open>replacement\<close> and \<open>premises\<close>, the memo set
  and the record of queries as they were, and the loop goes on with the next hit. When
  \<open>perform\<close> returns false, the counters, \<open>replacement\<close> and \<open>premises\<close> are as the
  caller passed them; and when every hit for every subterm is skipped, \<open>perform\<close>
  returns false. (The clause \<open>cl\<close> is an argument the function only reads.)
\<close>

theorem failed_hits_are_skipped:
  "((VDEBUG C \<and> length (literals (data_clause qr)) \<noteq> 1) = False
      \<and> \<not> compatible (color C cl) (color C (data_clause qr))
      \<longrightarrow> try_hit C e cl lit trm rc qr s = Next (rc, s))
   \<and> ((VDEBUG C \<and> length (literals (data_clause qr)) \<noteq> 1) = False
      \<and> compatible (color C cl) (color C (data_clause qr))
      \<and> sort_match C trm qr s = (False, s1)
      \<longrightarrow> try_hit C e cl lit trm rc qr s = Next (rc, s1))
   \<and> (reaches_ordering_check C cl trm qr s s1 rhs
      \<and> \<not> preordered C qr
      \<and> (preorderedOnly e \<or> \<not> isGreater C trm (hit_rhsS s1 qr rhs))
      \<longrightarrow> try_hit C e cl lit trm rc qr s = Next (rc, s1))
   \<and> (reaches_ordering_check C cl trm qr s s1 rhs
      \<and> (preordered C qr \<or> (\<not> preorderedOnly e \<and> isGreater C trm (hit_rhsS s1 qr rhs)))
      \<and> encompassing_check C e lit trm rc
      \<and> \<not> isPremiseRedundant C cl lit trm (hit_rhsS s1 qr rhs) (data_term qr) (unifier qr)
      \<longrightarrow> try_hit C e cl lit trm rc qr s = Next (rc, s1))
   \<and> (try_hit C e cl lit trm rc qr s = Next (rc', s1)
      \<longrightarrow> rc' = rc \<and> outputs_kept s s1 \<and> log_kept s s1
          \<and> hit_loop C e cl lit trm rc (qr # git) s = hit_loop C e cl lit trm rc git s1)
   \<and> (perform C e cl s = Inr (False, s') \<longrightarrow> outputs_kept s s')
   \<and> (all_hits_skipped C e cl \<longrightarrow> (\<exists>s'. perform C e cl s = Inr (False, s') \<and> outputs_kept s s'))"
proof -
  have 1: "(VDEBUG C \<and> length (literals (data_clause qr)) \<noteq> 1) = False
      \<and> \<not> compatible (color C cl) (color C (data_clause qr))
      \<longrightarrow> try_hit C e cl lit trm rc qr s = Next (rc, s)"
    by (simp add: try_hit_def)
  have 2: "(VDEBUG C \<and> length (literals (data_clause qr)) \<noteq> 1) = False
      \<and> compatible (color C cl) (color C (data_clause qr))
      \<and> sort_match C trm qr s = (False, s1)
      \<longrightarrow> try_hit C e cl lit trm rc qr s = Next (rc, s1)"
    by (simp add: try_hit_def)
  have 3: "reaches_ordering_check C cl trm qr s s1 rhs
      \<and> \<not> preordered C qr
      \<and> (preorderedOnly e \<or> \<not> isGreater C trm (hit_rhsS s1 qr rhs))
      \<longrightarrow> try_hit C e cl lit trm rc qr s = Next (rc, s1)"
    by (auto simp: try_hit_def reaches_ordering_check_def appl_rhsS)
  have 4: "reaches_ordering_check C cl trm qr s s1 rhs
      \<and> (preordered C qr \<or> (\<not> preorderedOnly e \<and> isGreater C trm (hit_rhsS s1 qr rhs)))
      \<and> encompassing_check C e lit trm rc
      \<and> \<not> isPremiseRedundant C cl lit trm (hit_rhsS s1 qr rhs) (data_term qr) (unifier qr)
      \<longrightarrow> try_hit C e cl lit trm rc qr s = Next (rc, s1)"
    by (auto simp: try_hit_def reaches_ordering_check_def appl_rhsS Let_def
        dest: encompassing_check_True)
  have 5: "try_hit C e cl lit trm rc qr s = Next (rc', s1)
      \<longrightarrow> rc' = rc \<and> outputs_kept s s1 \<and> log_kept s s1
          \<and> hit_loop C e cl lit trm rc (qr # git) s = hit_loop C e cl lit trm rc git s1"
    using try_hit_Next [of C e cl lit trm rc qr s rc' s1] by auto
  have 6: "perform C e cl s = Inr (False, s') \<longrightarrow> outputs_kept s s'"
    using perform_post [of C e cl s False s'] by auto
  have 7: "all_hits_skipped C e cl \<longrightarrow> (\<exists>s'. perform C e cl s = Inr (False, s') \<and> outputs_kept s s')"
  proof
    assume a: "all_hits_skipped C e cl"
    from lit_loop_all_skipped [of "literals cl" C e cl "s\<lparr> attempted := {}, queries := [] \<rparr>"] a
    obtain s2 where "lit_loop C e cl (literals cl) (s\<lparr> attempted := {}, queries := [] \<rparr>) = Next s2"
      unfolding all_hits_skipped_def by blast
    then have p: "perform C e cl s = Inr (False, s2)"
      by (simp add: perform_def)
    with perform_post [OF p] show "\<exists>s'. perform C e cl s = Inr (False, s') \<and> outputs_kept s s'"
      by auto
  qed
  from 1 2 3 4 5 6 7 show ?thesis by blast
qed

theorem failed_hits_are_skipped_witness:
  "\<not> compatible (color C_fail goal_cl) (color C_fail left_cl)
   \<and> try_hit C_fail demo_engine goal_cl (Literal 5 True [App 2 [App 2 [App 7 []]]])
        (App 2 [App 2 [App 7 []]]) True (hit_of left_cl (App 2 [Var 0]) (App 2 [App 7 []])) demo_state
      = Next (True, demo_state)
   \<and> sort_match C_fail (App 2 [App 2 [App 7 []]])
        (hit_of var_cl (Var 0) (App 2 [App 2 [App 7 []]])) demo_state = (False, demo_state)
   \<and> try_hit C_fail demo_engine goal_cl (Literal 5 True [App 2 [App 2 [App 7 []]]])
        (App 2 [App 2 [App 7 []]]) True (hit_of var_cl (Var 0) (App 2 [App 2 [App 7 []]])) demo_state
      = Next (True, demo_state)
   \<and> \<not> preordered C_fail (hit_of unordered_cl (App 2 [Var 0]) (App 2 [App 7 []]))
   \<and> \<not> isGreater C_fail (App 2 [App 2 [App 7 []]]) (App 3 [App 2 [App 7 []], App 2 [App 7 []]])
   \<and> try_hit C_fail demo_engine goal_cl (Literal 5 True [App 2 [App 2 [App 7 []]]])
        (App 2 [App 2 [App 7 []]]) True (hit_of unordered_cl (App 2 [Var 0]) (App 2 [App 7 []])) demo_state
      = Next (True, demo_state)
   \<and> preordered C_fail (hit_of eq_cl (App 2 [Var 0]) (App 2 [App 7 []]))
   \<and> \<not> isPremiseRedundant C_fail goal_cl (Literal 5 True [App 2 [App 2 [App 7 []]]])
         (App 2 [App 2 [App 7 []]]) (App 2 [App 7 []]) (App 2 [Var 0]) (\<lambda>_. App 2 [App 7 []])
   \<and> try_hit C_fail demo_engine goal_cl (Literal 5 True [App 2 [App 2 [App 7 []]]])
        (App 2 [App 2 [App 7 []]]) True (hit_of eq_cl (App 2 [Var 0]) (App 2 [App 7 []])) demo_state
      = Next (True, demo_state)
   \<and> hit_loop C_fail demo_engine goal_cl (Literal 5 True [App 2 [App 2 [App 7 []]]])
        (App 2 [App 2 [App 7 []]]) True
        [hit_of left_cl (App 2 [Var 0]) (App 2 [App 7 []]), hit_of eq_cl (App 2 [Var 0]) (App 2 [App 7 []])]
        demo_state
      = hit_loop C_fail demo_engine goal_cl (Literal 5 True [App 2 [App 2 [App 7 []]]])
        (App 2 [App 2 [App 7 []]]) True [hit_of eq_cl (App 2 [Var 0]) (App 2 [App 7 []])] demo_state
   \<and> all_hits_skipped C_fail demo_engine goal_cl
   \<and> (\<exists>s'. perform C_fail demo_engine goal_cl demo_state = Inr (False, s')
         \<and> outputs_kept demo_state s'
         \<and> replacement s' = None \<and> premises_out s' = []
         \<and> queries s' = [App 2 [App 2 [App 7 []]], App 2 [App 7 []], App 7 []])"
proof -
  let ?lit = "Literal 5 True [App 2 [App 2 [App 7 []]]]"
  let ?trm = "App 2 [App 2 [App 7 []]]"
  let ?u = "App 2 [App 7 []]"
  let ?h1 = "hit_of left_cl (App 2 [Var 0]) ?u"
  let ?h2 = "hit_of var_cl (Var 0) ?trm"
  let ?h3 = "hit_of unordered_cl (App 2 [Var 0]) ?u"
  let ?h4 = "hit_of eq_cl (App 2 [Var 0]) ?u"
  have ds: "demo_state\<lparr> subst := Var \<rparr> = demo_state"
    by (simp add: demo_state_def)
  have unit: "(VDEBUG C_fail \<and> length (literals (data_clause q)) \<noteq> 1) = False"
    if "q \<in> {?h1, ?h2, ?h3, ?h4}" for q
    using that by (auto simp: hit_of_def sample_literals)
  have c1: "\<not> compatible (color C_fail goal_cl) (color C_fail (data_clause ?h1))"
    by (simp add: hit_of_def C_fail_fields compatible_def)
  have c2: "compatible (color C_fail goal_cl) (color C_fail (data_clause ?h2))"
    "compatible (color C_fail goal_cl) (color C_fail (data_clause ?h3))"
    "compatible (color C_fail goal_cl) (color C_fail (data_clause ?h4))"
    by (simp_all add: hit_of_def C_fail_fields compatible_def)
  have sm2: "sort_match C_fail ?trm ?h2 demo_state = (False, demo_state)"
    by (simp add: sort_match_def hit_of_def C_fail_fields ds)
  have r3: "reaches_ordering_check C_fail goal_cl ?trm ?h3 demo_state demo_state (App 3 [Var 0, Var 0])"
    unfolding reaches_ordering_check_def using unit [of ?h3] c2(2)
    by (simp add: sort_match_def debug_assertions_def preordered_def Let_def)
       (simp add: hit_of_def sample_literals getOtherEqualitySide_def nthArgument_def C_fail_order)
  have p3: "\<not> preordered C_fail ?h3"
    by (simp add: preordered_def hit_of_def sample_literals C_fail_order)
  have g3: "\<not> isGreater C_fail ?trm (hit_rhsS demo_state ?h3 (App 3 [Var 0, Var 0]))"
    by (simp add: hit_rhsS_def hit_of_def C_fail_fields subterm_gt_def)
  have r4: "reaches_ordering_check C_fail goal_cl ?trm ?h4 demo_state demo_state (Var 0)"
    unfolding reaches_ordering_check_def using unit [of ?h4] c2(3)
    by (simp add: sort_match_def debug_assertions_def preordered_def Let_def)
       (simp add: hit_of_def sample_literals getOtherEqualitySide_def nthArgument_def C_fail_order)
  have p4: "preordered C_fail ?h4"
    by (simp add: preordered_def hit_of_def sample_literals C_fail_order)
  have e4: "encompassing_check C_fail demo_engine ?lit ?trm True"
    by (simp add: encompassing_check_def demo_engine_def)
  have n4: "\<not> isPremiseRedundant C_fail goal_cl ?lit ?trm (hit_rhsS demo_state ?h4 (Var 0))
              (data_term ?h4) (unifier ?h4)"
    by (simp add: C_fail_fields)
  have v4: "hit_rhsS demo_state ?h4 (Var 0) = ?u" "data_term ?h4 = App 2 [Var 0]"
    "unifier ?h4 = (\<lambda>_. ?u)" "hit_rhsS demo_state ?h3 (App 3 [Var 0, Var 0]) = App 3 [?u, ?u]"
    "data_clause ?h1 = left_cl"
    by (simp_all add: hit_rhsS_def hit_of_def)
  from observe_Some [OF fail_run] obtain s' where
    p: "perform C_fail demo_engine goal_cl demo_state = Inr (False, s')"
    and o: "replacement s' = None" "premises_out s' = []"
      "queries s' = [App 2 [App 2 [App 7 []]], App 2 [App 7 []], App 7 []]"
    by blast
  note T = failed_hits_are_skipped [where C = C_fail and e = demo_engine and cl = goal_cl
      and lit = ?lit and trm = ?trm and rc = True and s = demo_state and ?s1.0 = demo_state
      and rc' = True and s' = s']
  from T [where qr = ?h1 and git = "[?h4]"] unit [of ?h1] c1
  have A: "try_hit C_fail demo_engine goal_cl ?lit ?trm True ?h1 demo_state = Next (True, demo_state)"
    by blast
  with T [where qr = ?h1 and git = "[?h4]"]
  have A': "hit_loop C_fail demo_engine goal_cl ?lit ?trm True [?h1, ?h4] demo_state
             = hit_loop C_fail demo_engine goal_cl ?lit ?trm True [?h4] demo_state"
    by blast
  from T [where qr = ?h2] unit [of ?h2] c2(1) sm2
  have B: "try_hit C_fail demo_engine goal_cl ?lit ?trm True ?h2 demo_state = Next (True, demo_state)"
    by blast
  from T [where qr = ?h3 and rhs = "App 3 [Var 0, Var 0]"] r3 p3 g3
  have Cc: "try_hit C_fail demo_engine goal_cl ?lit ?trm True ?h3 demo_state = Next (True, demo_state)"
    by blast
  from T [where qr = ?h4 and rhs = "Var 0"] r4 p4 e4 n4
  have D: "try_hit C_fail demo_engine goal_cl ?lit ?trm True ?h4 demo_state = Next (True, demo_state)"
    by blast
  from T [where qr = ?h1] C_fail_all_skipped p
  have E: "outputs_kept demo_state s'"
    by blast
  from A A' B Cc D E c1 sm2 p3 g3 p4 n4 C_fail_all_skipped p o show ?thesis
    unfolding v4 by blast
qed

section \<open>Properties of the saturation driver\<close>



















end
